theory Spec2Isabelle
  imports Main
begin

section \<open>Python slices\<close>

text \<open>
  The assembler of \<^verbatim>\<open>Lab5/ex1.py\<close> works on Python strings and takes its two
  thresholds \<^verbatim>\<open>k\<close> and \<^verbatim>\<open>min_olap\<close> as Python integers, which are unbounded and may
  be zero or negative. A slice never raises: its bounds are clipped to the string.
  \<^item> \<^verbatim>\<open>a[-n:]\<close> is the last \<open>n\<close> characters for \<open>n > 0\<close> (all of \<open>a\<close> when
    \<open>n\<close> exceeds its length), all of \<open>a\<close> for \<open>n = 0\<close>, and \<open>a\<close> without its first
    \<open>-n\<close> characters for \<open>n < 0\<close>;
  \<^item> \<^verbatim>\<open>b[:n]\<close> is the first \<open>n\<close> characters for \<open>n \<ge> 0\<close>, and \<open>b\<close> without its last
    \<open>-n\<close> characters for \<open>n < 0\<close>;
  \<^item> \<^verbatim>\<open>b[n:]\<close> for \<open>n \<ge> 0\<close> is \<open>b\<close> without its first \<open>n\<close> characters.
\<close>

definition py_suffix :: "string \<Rightarrow> int \<Rightarrow> string" where
  "py_suffix a n = (if 0 < n then drop (length a - nat n) a else drop (nat (- n)) a)"

definition py_prefix :: "string \<Rightarrow> int \<Rightarrow> string" where
  "py_prefix b n = (if 0 \<le> n then take (nat n) b else take (length b - nat (- n)) b)"

definition py_from :: "string \<Rightarrow> int \<Rightarrow> string" where
  "py_from b n = (if 0 \<le> n then drop (nat n) b else drop (length b - nat (- n)) b)"

section \<open>Overlap Matcher\<close>

text \<open>
  \<^verbatim>\<open>
  def longest_overlap(a, b, min_olap):
      max_olap = min(len(a), len(b))
      if a[-min_olap:] != b[:min_olap]:
          return 0
      for olen in range(max_olap, min_olap - 1, -1):
          if a[-olen:] == b[:olen]:
              return olen
      return 0
  \<close>
  The \<^verbatim>\<open>for\<close> loop counts \<open>olen\<close> down from \<open>max_olap\<close> to \<open>min_olap\<close>; it is
  \<open>overlap_scan\<close>, which returns 0 once \<open>olen\<close> has fallen below \<open>min_olap\<close>.
\<close>

function overlap_scan :: "string \<Rightarrow> string \<Rightarrow> int \<Rightarrow> int \<Rightarrow> int" where
  "overlap_scan a b min_olap olen =
     (if olen < min_olap then 0
      else if py_suffix a olen = py_prefix b olen then olen
      else overlap_scan a b min_olap (olen - 1))"
  by pat_completeness auto
termination
  by (relation "measure (\<lambda>(a, b, min_olap, olen). nat (olen - min_olap + 1))") auto

declare overlap_scan.simps [simp del]

definition longest_overlap :: "string \<Rightarrow> string \<Rightarrow> int \<Rightarrow> int" where
  "longest_overlap a b min_olap =
     (let max_olap = int (min (length a) (length b)) in
      if py_suffix a min_olap \<noteq> py_prefix b min_olap then 0
      else overlap_scan a b min_olap max_olap)"

text \<open>
  The specification's notion of an overlap of length \<open>L\<close>: \<open>L\<close> is at most either
  length, and the last \<open>L\<close> characters of \<open>a\<close> are the first \<open>L\<close> characters of \<open>b\<close>.
\<close>

definition overlap_at :: "string \<Rightarrow> string \<Rightarrow> nat \<Rightarrow> bool" where
  "overlap_at a b L \<longleftrightarrow>
     L \<le> length a \<and> L \<le> length b \<and> drop (length a - L) a = take L b"

subsection \<open>What the matcher returns\<close>

lemma slice_overlap_at:
  assumes "1 \<le> L" "L \<le> int (length a)" "L \<le> int (length b)"
  shows "py_suffix a L = py_prefix b L \<longleftrightarrow> overlap_at a b (nat L)"
  using assms by (auto simp: py_suffix_def py_prefix_def overlap_at_def)

lemma overlap_scan_range:
  "overlap_scan a b m n = 0 \<or> (m \<le> overlap_scan a b m n \<and> overlap_scan a b m n \<le> n
     \<and> py_suffix a (overlap_scan a b m n) = py_prefix b (overlap_scan a b m n))"
proof (induction a b m n rule: overlap_scan.induct)
  case (1 a b m n)
  show ?case
  proof (cases "n < m")
    case True
    then show ?thesis by (simp add: overlap_scan.simps)
  next
    case False
    note nm = this
    show ?thesis
    proof (cases "py_suffix a n = py_prefix b n")
      case True
      with nm show ?thesis by (simp add: overlap_scan.simps)
    next
      case False
      with nm have eq: "overlap_scan a b m n = overlap_scan a b m (n - 1)"
        by (subst overlap_scan.simps) simp
      from "1.IH"[OF nm False] show ?thesis unfolding eq by auto
    qed
  qed
qed

lemma overlap_scan_greatest:
  "m \<le> L \<Longrightarrow> L \<le> n \<Longrightarrow> py_suffix a L = py_prefix b L \<Longrightarrow> L \<le> overlap_scan a b m n"
proof (induction a b m n rule: overlap_scan.induct)
  case (1 a b m n)
  from "1.prems" have nm: "\<not> n < m" by simp
  show ?case
  proof (cases "py_suffix a n = py_prefix b n")
    case True
    with nm "1.prems" show ?thesis by (simp add: overlap_scan.simps)
  next
    case False
    with nm have eq: "overlap_scan a b m n = overlap_scan a b m (n - 1)"
      by (subst overlap_scan.simps) simp
    from False "1.prems" have "L \<noteq> n" by auto
    with "1.prems" have "L \<le> n - 1" by simp
    from "1.IH"[OF nm False "1.prems"(1) this "1.prems"(3)] show ?thesis unfolding eq .
  qed
qed

lemma longest_overlap_rejected:
  "py_suffix a m \<noteq> py_prefix b m \<Longrightarrow> longest_overlap a b m = 0"
  by (simp add: longest_overlap_def)

lemma longest_overlap_accepted:
  "py_suffix a m = py_prefix b m \<Longrightarrow>
   longest_overlap a b m = overlap_scan a b m (int (min (length a) (length b)))"
  by (simp add: longest_overlap_def)

lemma overlap_at_bounds: "overlap_at a b L \<Longrightarrow> int L \<le> int (min (length a) (length b))"
  by (simp add: overlap_at_def)

lemma finite_overlaps: "finite {L. P L \<and> overlap_at a b L}"
proof (rule finite_subset)
  show "{L. P L \<and> overlap_at a b L} \<subseteq> {..length a}"
    by (auto simp: overlap_at_def)
qed simp

text \<open>
  Claim C1, as amended. For every pair of sequences \<open>a\<close>, \<open>b\<close> and every minimum
  overlap \<open>m \<ge> 1\<close>: when the slice \<^verbatim>\<open>a[-m:]\<close> differs from the slice \<^verbatim>\<open>b[:m]\<close>,
  \<open>longest_overlap\<close> returns 0, whatever longer overlaps there are. Otherwise it returns
  the largest \<open>L\<close> with \<open>m \<le> L \<le> min (length a) (length b)\<close> such that the last \<open>L\<close>
  characters of \<open>a\<close> are the first \<open>L\<close> characters of \<open>b\<close>, and 0 when there is no such
  \<open>L\<close>.
\<close>

theorem longest_overlap_guarded:
  assumes "1 \<le> m"
  shows "longest_overlap a b m =
     (if py_suffix a m = py_prefix b m \<and> (\<exists>L. nat m \<le> L \<and> overlap_at a b L)
      then int (Max {L. nat m \<le> L \<and> overlap_at a b L}) else 0)"
proof (cases "py_suffix a m = py_prefix b m")
  case False
  then show ?thesis by (simp add: longest_overlap_rejected)
next
  case True
  let ?n = "int (min (length a) (length b))"
  let ?r = "overlap_scan a b m ?n"
  let ?S = "{L. nat m \<le> L \<and> overlap_at a b L}"
  have lo: "longest_overlap a b m = ?r"
    using True by (rule longest_overlap_accepted)
  show ?thesis
  proof (cases "\<exists>L. nat m \<le> L \<and> overlap_at a b L")
    case False
    have "?r = 0"
    proof (rule ccontr)
      assume "?r \<noteq> 0"
      with overlap_scan_range[of a b m ?n]
      have r: "m \<le> ?r" "?r \<le> ?n" "py_suffix a ?r = py_prefix b ?r" by auto
      with assms have "overlap_at a b (nat ?r)"
        by (subst slice_overlap_at[symmetric]) auto
      moreover from r assms have "nat m \<le> nat ?r" by simp
      ultimately show False using False by blast
    qed
    with lo False show ?thesis by auto
  next
    case ex: True
    then obtain L0 where L0: "nat m \<le> L0" "overlap_at a b L0" by blast
    have fin: "finite ?S" by (rule finite_overlaps)
    have ne: "?S \<noteq> {}" using L0 by blast
    have upper: "int L \<le> ?r" if "L \<in> ?S" for L
    proof -
      from that have L: "nat m \<le> L" "overlap_at a b L" by auto
      from L assms have 1: "m \<le> int L" by simp
      from L(2) have 2: "int L \<le> ?n" by (rule overlap_at_bounds)
      from 1 2 assms L(2) have "py_suffix a (int L) = py_prefix b (int L)"
        by (subst slice_overlap_at) auto
      with 1 2 show ?thesis by (rule overlap_scan_greatest)
    qed
    from upper[of L0] L0 assms have pos: "1 \<le> ?r" by simp
    with overlap_scan_range[of a b m ?n]
    have r: "m \<le> ?r" "?r \<le> ?n" "py_suffix a ?r = py_prefix b ?r" by auto
    with pos have "overlap_at a b (nat ?r)"
      by (subst slice_overlap_at[symmetric]) auto
    moreover from r assms have "nat m \<le> nat ?r" by simp
    ultimately have mem: "nat ?r \<in> ?S" by simp
    have "Max ?S = nat ?r"
    proof (rule Max_eqI[OF fin _ mem])
      fix L assume "L \<in> ?S"
      from upper[OF this] show "L \<le> nat ?r" by simp
    qed
    with pos lo True ex show ?thesis by simp
  qed
qed

theorem longest_overlap_guarded_witness:
  "longest_overlap ''ACGTACG'' ''TACGTTT'' 4 = 4
   \<and> py_suffix ''ACGTACG'' 4 = py_prefix ''TACGTTT'' 4
   \<and> Max {L. nat 4 \<le> L \<and> overlap_at ''ACGTACG'' ''TACGTTT'' L} = 4"
proof -
  have v: "longest_overlap ''ACGTACG'' ''TACGTTT'' 4 = 4" by code_simp
  have g: "py_suffix ''ACGTACG'' 4 = py_prefix ''TACGTTT'' 4" by code_simp
  have h: "(1::int) \<le> 4" by simp
  have o: "overlap_at ''ACGTACG'' ''TACGTTT'' 4" by code_simp
  have "\<exists>L. nat 4 \<le> L \<and> overlap_at ''ACGTACG'' ''TACGTTT'' L"
    by (rule exI[of _ 4]) (simp add: o)
  with longest_overlap_guarded[OF h, of "''ACGTACG''" "''TACGTTT''"] v g
  show ?thesis by simp
qed

text \<open>
  Claim C1 as stated fails: with \<open>a = ACG\<close>, \<open>b = ACGT\<close> and \<open>m = 2\<close> the length
  \<open>L = 3\<close> lies between \<open>m\<close> and the shorter length and is an overlap, but the
  early rejection compares \<open>CG\<close> with \<open>AC\<close> and returns 0.
\<close>

theorem longest_overlap_counterexample:
  "(2::int) \<le> 3 \<and> 3 \<le> min (length ''ACG'') (length ''ACGT'')
   \<and> drop (length ''ACG'' - 3) ''ACG'' = take 3 ''ACGT''
   \<and> overlap_at ''ACG'' ''ACGT'' 3
   \<and> longest_overlap ''ACG'' ''ACGT'' 2 = 0"
  by code_simp

section \<open>Fragments and the Prefix Index\<close>

text \<open>
  The engine keeps its fragments in a Python list of \<^verbatim>\<open>Optional[str]\<close>: a fragment's
  identifier is its position, a retired fragment is \<^verbatim>\<open>None\<close>. The index is a
  \<^verbatim>\<open>Dict[str, Set[int]]\<close>. The tests \<^verbatim>\<open>not r\<close> of the source are Python truth
  values: \<^verbatim>\<open>None\<close> and the empty string are false, every other string is true.
\<close>

type_synonym fragment = "string option"

type_synonym prefix_index = "string \<rightharpoonup> nat set"

datatype py_error = IndexError | KeyError | TypeError

definition truthy :: "fragment \<Rightarrow> bool" where
  "truthy r = (case r of None \<Rightarrow> False | Some s \<Rightarrow> s \<noteq> [])"

text \<open>\<^verbatim>\<open>idx.setdefault(p, set()).add(i)\<close>\<close>

definition setdefault_add :: "prefix_index \<Rightarrow> string \<Rightarrow> nat \<Rightarrow> prefix_index" where
  "setdefault_add idx p i = idx(p \<mapsto> insert i (case idx p of None \<Rightarrow> {} | Some s \<Rightarrow> s))"

text \<open>\<^verbatim>\<open>s.remove(i)\<close> raises \<^verbatim>\<open>KeyError\<close> when \<open>i\<close> is not in the set.\<close>

definition set_remove :: "nat set \<Rightarrow> nat \<Rightarrow> py_error + nat set" where
  "set_remove s i = (if i \<in> s then Inr (s - {i}) else Inl KeyError)"

text \<open>
  \<^verbatim>\<open>
  def build_prefix_index(reads, k):
      idx = {}
      for i, r in enumerate(reads):
          if not r or len(r) < k:
              continue
          p = r[:k]
          idx.setdefault(p, set()).add(i)
      return idx
  \<close>
\<close>

fun build_from :: "nat \<Rightarrow> fragment list \<Rightarrow> int \<Rightarrow> prefix_index \<Rightarrow> prefix_index" where
  "build_from i [] k idx = idx"
| "build_from i (r # rs) k idx =
     (case r of
        None \<Rightarrow> build_from (Suc i) rs k idx
      | Some s \<Rightarrow>
          if s = [] \<or> int (length s) < k then build_from (Suc i) rs k idx
          else build_from (Suc i) rs k (setdefault_add idx (py_prefix s k) i))"

definition build_prefix_index :: "fragment list \<Rightarrow> int \<Rightarrow> prefix_index" where
  "build_prefix_index rs k = build_from 0 rs k Map.empty"

text \<open>
  \<^verbatim>\<open>
  def update_prefix_index(idx, i, old, new, k):
      if old and len(old) >= k:
          p_old = old[:k]
          s = idx.get(p_old)
          if s and i in s:
              s.remove(i)
              if not s:
                  idx.pop(p_old, None)
      if new and len(new) >= k:
          p_new = new[:k]
          idx.setdefault(p_new, set()).add(i)
  \<close>
  \<open>remove_binding\<close> is the body of the first \<^verbatim>\<open>if\<close>. The set \<open>s\<close> is the object
  stored in the dictionary, so removing from it changes the bucket.
\<close>

definition remove_binding :: "prefix_index \<Rightarrow> nat \<Rightarrow> string \<Rightarrow> py_error + prefix_index" where
  "remove_binding idx i p_old =
     (case idx p_old of
        None \<Rightarrow> Inr idx
      | Some s \<Rightarrow>
          if s \<noteq> {} \<and> i \<in> s then
            (case set_remove s i of
               Inl e \<Rightarrow> Inl e
             | Inr s' \<Rightarrow> if s' = {} then Inr (idx(p_old := None)) else Inr (idx(p_old \<mapsto> s')))
          else Inr idx)"

definition update_prefix_index ::
  "prefix_index \<Rightarrow> nat \<Rightarrow> fragment \<Rightarrow> fragment \<Rightarrow> int \<Rightarrow> py_error + prefix_index" where
  "update_prefix_index idx i old new k =
     (case (case old of
              None \<Rightarrow> Inr idx
            | Some s \<Rightarrow>
                if s \<noteq> [] \<and> k \<le> int (length s) then remove_binding idx i (py_prefix s k)
                else Inr idx) of
        Inl e \<Rightarrow> Inl e
      | Inr idx1 \<Rightarrow>
          (case new of
             None \<Rightarrow> Inr idx1
           | Some s \<Rightarrow>
               if s \<noteq> [] \<and> k \<le> int (length s) then Inr (setdefault_add idx1 (py_prefix s k) i)
               else Inr idx1))"

section \<open>Greedy Merge Engine\<close>

text \<open>
  The local variables of \<^verbatim>\<open>greedy_assemble_indexed\<close>: the fragment list, the index and
  the progress flag. \<open>merge_log\<close> is a ghost field, absent from the source and never
  read by the engine: it holds, most recent pass first, the number of merges of each
  pass of the \<^verbatim>\<open>while\<close> loop. A pass opens its entry with 0 where the source resets
  \<^verbatim>\<open>made_progress\<close>, and a merge increments it where the source sets the flag
  (\<open>count_merge\<close>; on an empty log, which no merge of a run meets, it opens an entry).
\<close>

record assembly =
  reads :: "fragment list"
  idx :: prefix_index
  made_progress :: bool
  merge_log :: "nat list"

definition count_merge :: "nat list \<Rightarrow> nat list" where
  "count_merge log = (case log of [] \<Rightarrow> [1] | n # ns \<Rightarrow> Suc n # ns)"

text \<open>
  Python does not define the order in which a set is iterated, and two iterations over
  sets with the same members need not agree. The engine is therefore parametrised by the
  enumeration \<open>enum\<close> that \<^verbatim>\<open>list(cand_idxs)\<close> performs, which may depend on the
  state of the run and on the position \<open>i\<close> being scanned. What it must satisfy is
  \<open>enumerates\<close>: the list holds exactly the members of the set, each once.
  \<open>ascending\<close> is one such enumeration, used for the concrete runs below.
\<close>

type_synonym enumeration = "assembly \<Rightarrow> nat \<Rightarrow> nat set \<Rightarrow> nat list"

definition enumerates :: "enumeration \<Rightarrow> bool" where
  "enumerates enum \<longleftrightarrow>
     (\<forall>st i S. finite S \<longrightarrow> set (enum st i S) = S \<and> distinct (enum st i S))"

definition ascending :: enumeration where
  "ascending st i S = sorted_list_of_set S"

text \<open>
  The candidate loop, with \<open>best = (best_j, best_ol)\<close>:
  \<^verbatim>\<open>
  for j in list(cand_idxs):
      if j == i:
          continue
      rj = reads[j]
      if not rj:
          continue
      ol = longest_overlap(r, rj, min_olap)
      if ol > best_ol:
          best_ol = ol
          best_j = j
  \<close>
\<close>

fun best_partner ::
  "fragment list \<Rightarrow> nat \<Rightarrow> string \<Rightarrow> int \<Rightarrow> nat list \<Rightarrow> nat option \<times> int
     \<Rightarrow> py_error + (nat option \<times> int)" where
  "best_partner rs i r min_olap [] best = Inr best"
| "best_partner rs i r min_olap (j # js) (best_j, best_ol) =
     (if j = i then best_partner rs i r min_olap js (best_j, best_ol)
      else if length rs \<le> j then Inl IndexError
      else
        (case rs ! j of
           None \<Rightarrow> best_partner rs i r min_olap js (best_j, best_ol)
         | Some rj \<Rightarrow>
             if rj = [] then best_partner rs i r min_olap js (best_j, best_ol)
             else
               (let ol = longest_overlap r rj min_olap in
                if best_ol < ol then best_partner rs i r min_olap js (Some j, ol)
                else best_partner rs i r min_olap js (best_j, best_ol))))"

text \<open>
  The merge of fragment \<open>best_j\<close> into fragment \<open>i\<close>:
  \<^verbatim>\<open>
  old_i = reads[i]
  old_j = reads[best_j]
  merged = r + reads[best_j][best_ol:]
  reads[i] = merged
  reads[best_j] = None
  update_prefix_index(idx, i, old_i, merged, k)
  update_prefix_index(idx, best_j, old_j, None, k)
  made_progress = True
  \<close>
\<close>

definition merge_into :: "int \<Rightarrow> nat \<Rightarrow> string \<Rightarrow> nat \<Rightarrow> int \<Rightarrow> assembly \<Rightarrow> py_error + assembly" where
  "merge_into k i r best_j best_ol st =
     (if length (reads st) \<le> i \<or> length (reads st) \<le> best_j then Inl IndexError
      else
        (let old_i = reads st ! i; old_j = reads st ! best_j in
         case old_j of
           None \<Rightarrow> Inl TypeError
         | Some rj \<Rightarrow>
             (let merged = r @ py_from rj best_ol;
                  reads1 = (reads st)[i := Some merged];
                  reads2 = reads1[best_j := None] in
              case update_prefix_index (idx st) i old_i (Some merged) k of
                Inl e \<Rightarrow> Inl e
              | Inr idx1 \<Rightarrow>
                  (case update_prefix_index idx1 best_j old_j None k of
                     Inl e \<Rightarrow> Inl e
                   | Inr idx2 \<Rightarrow>
                       Inr (st\<lparr>reads := reads2, idx := idx2, made_progress := True,
                                merge_log := count_merge (merge_log st)\<rparr>)))))"

text \<open>
  The body of the \<^verbatim>\<open>for i, r in enumerate(reads)\<close> loop for one \<open>i\<close>. The list
  iterator reads \<^verbatim>\<open>reads[i]\<close> when it reaches \<open>i\<close>, so \<open>r\<close> is the fragment as earlier
  merges of the same pass have left it.
  \<^verbatim>\<open>
  if not r or len(r) < k:
      continue
  suf = r[-k:]
  cand_idxs = idx.get(suf, set())
  if not cand_idxs:
      continue
  best_j = None
  best_ol = 0
  ... the candidate loop ...
  if best_j is None or best_ol < min_olap:
      continue
  ... the merge ...
  \<close>
  \<open>choose_partner\<close> is the part up to the last \<^verbatim>\<open>continue\<close>: it yields \<open>None\<close> where
  the source continues with the next \<open>i\<close>, and otherwise the fragment \<open>r\<close>, the partner
  \<open>best_j\<close> and the overlap \<open>best_ol\<close> that the merge then uses.
\<close>

definition choose_partner ::
  "enumeration \<Rightarrow> int \<Rightarrow> int \<Rightarrow> nat \<Rightarrow> assembly \<Rightarrow> py_error + (string \<times> nat \<times> int) option" where
  "choose_partner enum k min_olap i st =
     (case reads st ! i of
        None \<Rightarrow> Inr None
      | Some r \<Rightarrow>
          if r = [] \<or> int (length r) < k then Inr None
          else
            (let suf = py_suffix r k;
                 cand_idxs = (case idx st suf of None \<Rightarrow> {} | Some s \<Rightarrow> s) in
             if cand_idxs = {} then Inr None
             else
               (case best_partner (reads st) i r min_olap (enum st i cand_idxs) (None, 0) of
                  Inl e \<Rightarrow> Inl e
                | Inr (None, best_ol) \<Rightarrow> Inr None
                | Inr (Some best_j, best_ol) \<Rightarrow>
                    if best_ol < min_olap then Inr None
                    else Inr (Some (r, best_j, best_ol)))))"

definition scan_fragment ::
  "enumeration \<Rightarrow> int \<Rightarrow> int \<Rightarrow> nat \<Rightarrow> assembly \<Rightarrow> py_error + assembly" where
  "scan_fragment enum k min_olap i st =
     (case choose_partner enum k min_olap i st of
        Inl e \<Rightarrow> Inl e
      | Inr None \<Rightarrow> Inr st
      | Inr (Some (r, best_j, best_ol)) \<Rightarrow> merge_into k i r best_j best_ol st)"

text \<open>
  One pass: the \<^verbatim>\<open>for\<close> loop over the positions of the list. No step changes the
  length of the list (\<open>scan_fragment_length\<close> below), so the positions the iterator
  visits are those of the list at the start of the pass.
\<close>

fun scan_all ::
  "enumeration \<Rightarrow> int \<Rightarrow> int \<Rightarrow> nat list \<Rightarrow> assembly \<Rightarrow> py_error + assembly" where
  "scan_all enum k min_olap [] st = Inr st"
| "scan_all enum k min_olap (i # is) st =
     (case scan_fragment enum k min_olap i st of
        Inl e \<Rightarrow> Inl e
      | Inr st' \<Rightarrow> scan_all enum k min_olap is st')"

text \<open>The number of active fragments: the entries that the source's \<^verbatim>\<open>not r\<close> lets pass.\<close>

definition active_count :: "fragment list \<Rightarrow> nat" where
  "active_count rs = length (filter truthy rs)"

section \<open>One step of the engine\<close>

lemma longest_overlap_positive:
  assumes "0 < longest_overlap a b m"
  shows "m \<le> longest_overlap a b m
    \<and> longest_overlap a b m \<le> int (min (length a) (length b))
    \<and> py_suffix a (longest_overlap a b m) = py_prefix b (longest_overlap a b m)"
proof -
  from assms have g: "py_suffix a m = py_prefix b m"
    by (auto simp: longest_overlap_def split: if_splits)
  from overlap_scan_range[of a b m "int (min (length a) (length b))"] assms
  show ?thesis unfolding longest_overlap_accepted[OF g] by auto
qed

text \<open>
  What the candidate loop keeps true of \<open>best = (best_j, best_ol)\<close>: the overlap is
  never negative, and a chosen partner is another position of the list that holds a
  non-empty sequence whose overlap with \<open>r\<close>, as \<open>longest_overlap\<close> computes it, is
  \<open>best_ol\<close> and positive.
\<close>

definition partner_ok :: "fragment list \<Rightarrow> nat \<Rightarrow> string \<Rightarrow> int \<Rightarrow> nat option \<times> int \<Rightarrow> bool" where
  "partner_ok rs i r m best \<longleftrightarrow>
     0 \<le> snd best \<and>
     (case fst best of
        None \<Rightarrow> True
      | Some j \<Rightarrow> j \<noteq> i \<and> j < length rs \<and> 0 < snd best \<and>
          (case rs ! j of None \<Rightarrow> False
           | Some rj \<Rightarrow> rj \<noteq> [] \<and> snd best = longest_overlap r rj m))"

lemma best_partner_ok:
  "best_partner rs i r m js best = Inr best' \<Longrightarrow> partner_ok rs i r m best
   \<Longrightarrow> partner_ok rs i r m best'"
proof (induction js arbitrary: best)
  case Nil
  then show ?case by simp
next
  case (Cons j js)
  obtain bj bo where best: "best = (bj, bo)" by (cases best)
  show ?case
  proof (cases "j = i \<or> \<not> truthy (rs ! j)")
    case True
    with Cons.prems(1) have "best_partner rs i r m js best = Inr best'"
      by (auto simp: best truthy_def split: if_splits option.splits)
    then show ?thesis using Cons.prems(2) by (rule Cons.IH)
  next
    case False
    then obtain rj where rj: "j \<noteq> i" "rs ! j = Some rj" "rj \<noteq> []"
      by (auto simp: truthy_def split: option.splits)
    from Cons.prems(1) rj have len: "j < length rs"
      by (auto simp: best split: if_splits)
    show ?thesis
    proof (cases "bo < longest_overlap r rj m")
      case True
      with Cons.prems(1) rj len
      have "best_partner rs i r m js (Some j, longest_overlap r rj m) = Inr best'"
        by (simp add: best)
      moreover from True Cons.prems(2) rj len
      have "partner_ok rs i r m (Some j, longest_overlap r rj m)"
        by (simp add: partner_ok_def best)
      ultimately show ?thesis by (rule Cons.IH)
    next
      case False
      with Cons.prems(1) rj len have "best_partner rs i r m js best = Inr best'"
        by (simp add: best)
      then show ?thesis using Cons.prems(2) by (rule Cons.IH)
    qed
  qed
qed

lemma best_partner_no_error:
  "\<forall>j\<in>set js. j < length rs \<Longrightarrow> \<exists>best'. best_partner rs i r m js best = Inr best'"
proof (induction js arbitrary: best)
  case Nil
  then show ?case by simp
next
  case (Cons j js)
  obtain bj bo where best: "best = (bj, bo)" by (cases best)
  from Cons.prems have "\<forall>j\<in>set js. j < length rs" "j < length rs" by auto
  with Cons.IH show ?case
    by (auto simp: best Let_def split: option.splits)
qed


text \<open>
  \<open>bound ix p i\<close>: the index has a bucket under the key \<open>p\<close> and \<open>i\<close> is in it.
  \<open>key_of r k\<close> is the key under which the source files a fragment, \<open>None\<close> for a
  fragment that its test \<^verbatim>\<open>not r or len(r) < k\<close> skips. \<open>index_ok\<close> says that the
  bindings of the index are exactly those of the fragments of the list.
\<close>

definition bound :: "prefix_index \<Rightarrow> string \<Rightarrow> nat \<Rightarrow> bool" where
  "bound ix p i = (case ix p of None \<Rightarrow> False | Some s \<Rightarrow> i \<in> s)"

definition key_of :: "fragment \<Rightarrow> int \<Rightarrow> string option" where
  "key_of r k =
     (case r of None \<Rightarrow> None
      | Some s \<Rightarrow> if s \<noteq> [] \<and> k \<le> int (length s) then Some (py_prefix s k) else None)"

definition index_ok :: "fragment list \<Rightarrow> prefix_index \<Rightarrow> int \<Rightarrow> bool" where
  "index_ok rs ix k \<longleftrightarrow>
     (\<forall>p i. bound ix p i \<longleftrightarrow> i < length rs \<and> key_of (rs ! i) k = Some p)"

lemma bound_setdefault_add:
  "bound (setdefault_add ix p i) q x \<longleftrightarrow> (q = p \<and> x = i) \<or> bound ix q x"
  by (auto simp: bound_def setdefault_add_def split: option.splits)

lemma remove_binding_bound:
  "\<exists>ix'. remove_binding ix i p = Inr ix'
     \<and> (\<forall>q x. bound ix' q x \<longleftrightarrow> bound ix q x \<and> \<not> (q = p \<and> x = i))"
proof (cases "ix p")
  case None
  then show ?thesis by (auto simp: remove_binding_def bound_def)
next
  case (Some s)
  show ?thesis
  proof (cases "i \<in> s")
    case False
    with Some show ?thesis by (auto simp: remove_binding_def bound_def)
  next
    case True
    show ?thesis
    proof (cases "s - {i} = {}")
      case True
      with \<open>i \<in> s\<close> have s: "s = {i}" by auto
      with Some have "remove_binding ix i p = Inr (ix(p := None))"
        by (simp add: remove_binding_def set_remove_def)
      moreover have "bound (ix(p := None)) q x \<longleftrightarrow> bound ix q x \<and> \<not> (q = p \<and> x = i)" for q x
        using Some s by (auto simp: bound_def)
      ultimately show ?thesis by blast
    next
      case False
      with Some \<open>i \<in> s\<close> have "remove_binding ix i p = Inr (ix(p \<mapsto> s - {i}))"
        by (auto simp: remove_binding_def set_remove_def)
      moreover have "bound (ix(p \<mapsto> s - {i})) q x \<longleftrightarrow> bound ix q x \<and> \<not> (q = p \<and> x = i)" for q x
        using Some by (auto simp: bound_def)
      ultimately show ?thesis by blast
    qed
  qed
qed

lemma update_prefix_index_bound:
  "\<exists>ix'. update_prefix_index ix i old new k = Inr ix'
     \<and> (\<forall>q x. bound ix' q x \<longleftrightarrow>
           (bound ix q x \<and> \<not> (x = i \<and> key_of old k = Some q))
           \<or> (x = i \<and> key_of new k = Some q))"
proof -
  define step1 where "step1 =
    (case old of None \<Rightarrow> Inr ix
     | Some s \<Rightarrow> if s \<noteq> [] \<and> k \<le> int (length s) then remove_binding ix i (py_prefix s k)
                 else Inr ix)"
  have "\<exists>ix1. step1 = Inr ix1
     \<and> (\<forall>q x. bound ix1 q x \<longleftrightarrow> bound ix q x \<and> \<not> (x = i \<and> key_of old k = Some q))"
  proof (cases "key_of old k")
    case None
    then have "step1 = Inr ix"
      by (auto simp: step1_def key_of_def split: option.splits if_splits)
    with None show ?thesis by simp
  next
    case (Some p)
    then have "step1 = remove_binding ix i p"
      by (auto simp: step1_def key_of_def split: option.splits if_splits)
    with remove_binding_bound[of ix i p] Some show ?thesis by auto
  qed
  then obtain ix1 where 1: "step1 = Inr ix1"
    and b1: "\<And>q x. bound ix1 q x \<longleftrightarrow> bound ix q x \<and> \<not> (x = i \<and> key_of old k = Some q)"
    by blast
  have u: "update_prefix_index ix i old new k =
     (case new of None \<Rightarrow> Inr ix1
      | Some s \<Rightarrow> if s \<noteq> [] \<and> k \<le> int (length s)
                  then Inr (setdefault_add ix1 (py_prefix s k) i) else Inr ix1)"
    using 1 unfolding update_prefix_index_def step1_def by simp
  show ?thesis
  proof (cases "key_of new k")
    case None
    then have "update_prefix_index ix i old new k = Inr ix1"
      unfolding u by (auto simp: key_of_def split: option.splits if_splits)
    with None b1 show ?thesis by simp
  next
    case (Some p)
    then have "update_prefix_index ix i old new k = Inr (setdefault_add ix1 p i)"
      unfolding u by (auto simp: key_of_def split: option.splits if_splits)
    with Some b1 show ?thesis by (auto simp: bound_setdefault_add)
  qed
qed


lemma best_partner_mem:
  "best_partner rs i r m js best = Inr (Some j, ol) \<Longrightarrow> fst best = Some j \<or> j \<in> set js"
proof (induction js arbitrary: best)
  case Nil
  then show ?case by simp
next
  case (Cons j' js)
  obtain bj bo where best: "best = (bj, bo)" by (cases best)
  from Cons.prems consider
    "best_partner rs i r m js best = Inr (Some j, ol)"
    | ol' where "best_partner rs i r m js (Some j', ol') = Inr (Some j, ol)"
    by (auto simp: best Let_def split: if_splits option.splits)
  then show ?case
  proof cases
    case 1
    from Cons.IH[OF this] show ?thesis by auto
  next
    case 2
    from Cons.IH[OF this] show ?thesis by auto
  qed
qed

lemma choose_partner_Some:
  assumes "choose_partner E k m i st = Inr (Some (r, j, ol))"
  shows "reads st ! i = Some r \<and> r \<noteq> [] \<and> k \<le> int (length r)
     \<and> partner_ok (reads st) i r m (Some j, ol) \<and> m \<le> ol
     \<and> (\<exists>S. idx st (py_suffix r k) = Some S \<and> j \<in> set (E st i S))"
proof -
  from assms obtain r0 where r0: "reads st ! i = Some r0" "r0 \<noteq> []" "k \<le> int (length r0)"
    by (auto simp: choose_partner_def split: option.splits if_splits)
  define S where "S = (case idx st (py_suffix r0 k) of None \<Rightarrow> {} | Some s \<Rightarrow> s)"
  from assms r0 have ne: "S \<noteq> {}"
    by (auto simp: choose_partner_def S_def Let_def split: option.splits if_splits)
  then obtain S' where S': "idx st (py_suffix r0 k) = Some S'" "S' = S"
    by (auto simp: S_def split: option.splits)
  from assms r0 ne
  have bp: "best_partner (reads st) i r0 m (E st i S) (None, 0) = Inr (Some j, ol)"
    and rest: "r = r0" "m \<le> ol"
    by (auto simp: choose_partner_def S_def[symmetric] Let_def
        split: option.splits if_splits sum.splits prod.splits)
  have "partner_ok (reads st) i r0 m (None, 0)" by (simp add: partner_ok_def)
  with bp have "partner_ok (reads st) i r0 m (Some j, ol)" by (rule best_partner_ok)
  moreover from best_partner_mem[OF bp] have "j \<in> set (E st i S)" by simp
  ultimately show ?thesis using r0 rest S' by auto
qed


text \<open>
  \<open>merge_result k i j ol st st'\<close>: the state \<open>st'\<close> is \<open>st\<close> after the merge of
  fragment \<open>j\<close> into fragment \<open>i\<close> with overlap \<open>ol\<close> and the two rebinds.
\<close>

definition merge_result :: "int \<Rightarrow> nat \<Rightarrow> nat \<Rightarrow> int \<Rightarrow> assembly \<Rightarrow> assembly \<Rightarrow> bool" where
  "merge_result k i j ol st st' \<longleftrightarrow>
     (case (reads st ! i, reads st ! j) of
        (Some r, Some rj) \<Rightarrow>
          reads st' = (reads st)[i := Some (r @ py_from rj ol), j := None]
          \<and> made_progress st'
          \<and> merge_log st' = count_merge (merge_log st)
          \<and> (\<forall>q x. bound (idx st') q x \<longleftrightarrow>
                ((bound (idx st) q x \<and> \<not> (x = i \<and> key_of (Some r) k = Some q))
                  \<or> (x = i \<and> key_of (Some (r @ py_from rj ol)) k = Some q))
                \<and> \<not> (x = j \<and> key_of (Some rj) k = Some q))
      | _ \<Rightarrow> False)"

lemma merge_into_result:
  assumes "i < length (reads st)" "j < length (reads st)"
    and "reads st ! i = Some r" "reads st ! j = Some rj"
  shows "\<exists>st'. merge_into k i r j ol st = Inr st' \<and> merge_result k i j ol st st'"
proof -
  let ?merged = "r @ py_from rj ol"
  from update_prefix_index_bound[of "idx st" i "Some r" "Some ?merged" k]
  obtain ix1 where 1: "update_prefix_index (idx st) i (Some r) (Some ?merged) k = Inr ix1"
    and b1: "\<And>q x. bound ix1 q x \<longleftrightarrow>
           (bound (idx st) q x \<and> \<not> (x = i \<and> key_of (Some r) k = Some q))
           \<or> (x = i \<and> key_of (Some ?merged) k = Some q)"
    by blast
  from update_prefix_index_bound[of ix1 j "Some rj" None k]
  obtain ix2 where 2: "update_prefix_index ix1 j (Some rj) None k = Inr ix2"
    and b2: "\<And>q x. bound ix2 q x \<longleftrightarrow>
           bound ix1 q x \<and> \<not> (x = j \<and> key_of (Some rj) k = Some q)"
    by (auto simp: key_of_def)
  let ?st' = "st\<lparr>reads := (reads st)[i := Some ?merged, j := None], idx := ix2,
     made_progress := True, merge_log := count_merge (merge_log st)\<rparr>"
  from assms 1 2 have "merge_into k i r j ol st = Inr ?st'"
    by (simp add: merge_into_def Let_def)
  moreover from assms b1 b2 have "merge_result k i j ol st ?st'"
    by (simp add: merge_result_def)
  ultimately show ?thesis by blast
qed

lemma scan_fragment_cases:
  assumes "i < length (reads st)"
  shows "(choose_partner E k m i st = Inr None \<and> scan_fragment E k m i st = Inr st)
     \<or> (\<exists>e. choose_partner E k m i st = Inl e \<and> scan_fragment E k m i st = Inl e)
     \<or> (\<exists>r j ol st'. choose_partner E k m i st = Inr (Some (r, j, ol))
           \<and> scan_fragment E k m i st = Inr st' \<and> merge_result k i j ol st st')"
proof (cases "choose_partner E k m i st")
  case (Inl e)
  then show ?thesis by (simp add: scan_fragment_def)
next
  case (Inr c)
  show ?thesis
  proof (cases c)
    case None
    with Inr show ?thesis by (simp add: scan_fragment_def)
  next
    case (Some t)
    obtain r j ol where t: "t = (r, j, ol)" by (cases t)
    from Inr Some t have cp: "choose_partner E k m i st = Inr (Some (r, j, ol))" by simp
    from choose_partner_Some[OF cp]
    have ri: "reads st ! i = Some r" and j: "j < length (reads st)"
      and "\<exists>rj. reads st ! j = Some rj"
      by (auto simp: partner_ok_def split: option.splits)
    then obtain rj where rj: "reads st ! j = Some rj" by blast
    from merge_into_result[OF assms j ri rj, of k ol] cp
    show ?thesis by (auto simp: scan_fragment_def)
  qed
qed


text \<open>The sum of the lengths of the sequences in the list.\<close>

definition total_length :: "fragment list \<Rightarrow> nat" where
  "total_length rs = sum_list (map (\<lambda>r. case r of None \<Rightarrow> 0 | Some s \<Rightarrow> length s) rs)"

lemma scan_fragment_step:
  assumes "i < length (reads st)" "scan_fragment E k m i st = Inr st'"
  obtains (skip) "choose_partner E k m i st = Inr None" "st' = st"
  | (merge) r j ol rj where
      "choose_partner E k m i st = Inr (Some (r, j, ol))"
      "reads st ! i = Some r" "reads st ! j = Some rj" "r \<noteq> []" "rj \<noteq> []"
      "j \<noteq> i" "j < length (reads st)" "k \<le> int (length r)"
      "ol = longest_overlap r rj m" "0 < ol" "m \<le> ol"
      "ol \<le> int (length r)" "ol \<le> int (length rj)"
      "reads st' = (reads st)[i := Some (r @ drop (nat ol) rj), j := None]"
      "made_progress st'" "merge_log st' = count_merge (merge_log st)"
      "\<And>q x. bound (idx st') q x \<longleftrightarrow>
         ((bound (idx st) q x \<and> \<not> (x = i \<and> key_of (Some r) k = Some q))
           \<or> (x = i \<and> key_of (Some (r @ drop (nat ol) rj)) k = Some q))
         \<and> \<not> (x = j \<and> key_of (Some rj) k = Some q)"
proof -
  from scan_fragment_cases[OF assms(1), of E k m] assms(2)
  consider "choose_partner E k m i st = Inr None" "st' = st"
    | r j ol where "choose_partner E k m i st = Inr (Some (r, j, ol))"
        "merge_result k i j ol st st'"
    by auto
  then show thesis
  proof cases
    case 1
    then show ?thesis by (rule skip)
  next
    case (2 r j ol)
    from choose_partner_Some[OF 2(1)]
    have ri: "reads st ! i = Some r" "r \<noteq> []" "k \<le> int (length r)" "m \<le> ol"
      and ok: "partner_ok (reads st) i r m (Some j, ol)" by auto
    from ok obtain rj where rj: "reads st ! j = Some rj" "rj \<noteq> []" "j \<noteq> i"
      "j < length (reads st)" "0 < ol" "ol = longest_overlap r rj m"
      by (auto simp: partner_ok_def split: option.splits)
    from longest_overlap_positive[of r rj m] rj
    have le: "ol \<le> int (length r)" "ol \<le> int (length rj)" by auto
    from rj have pf: "py_from rj ol = drop (nat ol) rj" by (simp add: py_from_def)
    from 2(2) ri rj have mr: "reads st' = (reads st)[i := Some (r @ drop (nat ol) rj), j := None]"
      "made_progress st'" "merge_log st' = count_merge (merge_log st)"
      "\<And>q x. bound (idx st') q x \<longleftrightarrow>
         ((bound (idx st) q x \<and> \<not> (x = i \<and> key_of (Some r) k = Some q))
           \<or> (x = i \<and> key_of (Some (r @ drop (nat ol) rj)) k = Some q))
         \<and> \<not> (x = j \<and> key_of (Some rj) k = Some q)"
      unfolding merge_result_def pf[symmetric] by simp_all
    show ?thesis
      by (rule merge[OF 2(1) ri(1) rj(1) ri(2) rj(2) rj(3) rj(4) ri(3) rj(6) rj(5) ri(4) le mr])
  qed
qed

lemma weight_update:
  fixes f :: "'a \<Rightarrow> nat"
  shows "i < length xs \<Longrightarrow> sum_list (map f (xs[i := y])) + f (xs ! i) = sum_list (map f xs) + f y"
proof (induction xs arbitrary: i)
  case Nil
  then show ?case by simp
next
  case (Cons x xs)
  show ?case
  proof (cases i)
    case 0
    then show ?thesis by simp
  next
    case (Suc n)
    with Cons.prems have "n < length xs" by simp
    from Cons.IH[OF this] Suc show ?thesis by simp
  qed
qed

lemma active_count_weight:
  "active_count rs = sum_list (map (\<lambda>r. if truthy r then 1 else 0) rs)"
  unfolding active_count_def by (induction rs) auto

lemma merge_weights:
  fixes f :: "fragment \<Rightarrow> nat"
  assumes "i < length rs" "j < length rs" "j \<noteq> i"
  shows "sum_list (map f (rs[i := a, j := b])) + f (rs ! i) + f (rs ! j)
     = sum_list (map f rs) + f a + f b"
proof -
  from assms have j: "j < length (rs[i := a])" and nj: "rs[i := a] ! j = rs ! j" by simp_all
  from weight_update[OF j, of f b] nj
  have "sum_list (map f (rs[i := a, j := b])) + f (rs ! j) = sum_list (map f (rs[i := a])) + f b"
    by simp
  moreover from weight_update[OF assms(1), of f a]
  have "sum_list (map f (rs[i := a])) + f (rs ! i) = sum_list (map f rs) + f a" .
  ultimately show ?thesis by simp
qed

lemma count_merge_sum: "sum_list (count_merge log) = Suc (sum_list log)"
  by (cases log) (simp_all add: count_merge_def)

lemma scan_fragment_length:
  assumes "i < length (reads st)" "scan_fragment E k m i st = Inr st'"
  shows "length (reads st') = length (reads st)"
  using assms by (cases rule: scan_fragment_step) simp_all

lemma scan_fragment_active:
  assumes "i < length (reads st)" "scan_fragment E k m i st = Inr st'"
  shows "st' = st \<or>
    (made_progress st' \<and> Suc (active_count (reads st')) = active_count (reads st)
      \<and> merge_log st' = count_merge (merge_log st) \<and> 0 < active_count (reads st'))"
  using assms
proof (cases rule: scan_fragment_step)
  case skip
  then show ?thesis by simp
next
  case (merge r j ol rj)
  let ?f = "\<lambda>r. if truthy r then 1 else (0::nat)"
  let ?rs' = "(reads st)[i := Some (r @ drop (nat ol) rj), j := None]"
  from merge_weights[OF assms(1) merge(7) merge(6), of ?f "Some (r @ drop (nat ol) rj)" None] merge
  have "Suc (active_count (reads st')) = active_count (reads st)"
    by (simp add: active_count_weight truthy_def)
  moreover have "truthy (reads st' ! i)"
    using merge assms(1) by (simp add: truthy_def)
  then have "0 < active_count (reads st')"
    using assms(1) merge(14) unfolding active_count_def
    by (metis filter_empty_conv length_greater_0_conv length_list_update nth_mem)
  ultimately show ?thesis using merge by simp
qed

lemma scan_fragment_total:
  assumes "i < length (reads st)" "scan_fragment E k m i st = Inr st'"
  shows "st' = st \<or> total_length (reads st') < total_length (reads st)"
  using assms
proof (cases rule: scan_fragment_step)
  case skip
  then show ?thesis by simp
next
  case (merge r j ol rj)
  let ?f = "\<lambda>r. case r of None \<Rightarrow> 0 | Some s \<Rightarrow> length s"
  from merge_weights[OF assms(1) merge(7) merge(6), of ?f "Some (r @ drop (nat ol) rj)" None] merge
  have "total_length (reads st') + nat ol = total_length (reads st)"
    by (simp add: total_length_def)
  moreover from merge(10) have "0 < nat ol" by simp
  ultimately have "total_length (reads st') < total_length (reads st)" by linarith
  then show ?thesis ..
qed

section \<open>The passes\<close>

lemma scan_all_invariant:
  assumes "scan_all E k m js st = Inr st'" "P st" "length (reads st) = n" "\<forall>i\<in>set js. i < n"
    and step: "\<And>i s s'. P s \<Longrightarrow> length (reads s) = n \<Longrightarrow> i < n
        \<Longrightarrow> scan_fragment E k m i s = Inr s' \<Longrightarrow> P s'"
  shows "P st' \<and> length (reads st') = n"
  using assms(1-4)
proof (induction js arbitrary: st)
  case Nil
  then show ?case by simp
next
  case (Cons i js)
  from Cons.prems(1) obtain s1 where s1: "scan_fragment E k m i st = Inr s1"
    and rest: "scan_all E k m js s1 = Inr st'"
    by (auto split: sum.splits)
  from Cons.prems have i: "i < n" "i < length (reads st)" by auto
  from step[OF Cons.prems(2) Cons.prems(3) i(1) s1] have "P s1" .
  moreover from scan_fragment_length[OF i(2) s1] Cons.prems(3) have "length (reads s1) = n" by simp
  moreover from Cons.prems(4) have "\<forall>i\<in>set js. i < n" by simp
  ultimately show ?case using rest Cons.IH by blast
qed

subsection \<open>Termination of the while loop\<close>

lemma scan_all_active:
  assumes "scan_all E k m [0..<length (reads st)] st = Inr st'" "\<not> made_progress st"
  shows "active_count (reads st') \<le> active_count (reads st)
    \<and> (made_progress st' \<longrightarrow> active_count (reads st') < active_count (reads st))"
proof -
  let ?P = "\<lambda>s. active_count (reads s) \<le> active_count (reads st)
    \<and> (made_progress s \<longrightarrow> active_count (reads s) < active_count (reads st))"
  have "?P st' \<and> length (reads st') = length (reads st)"
  proof (rule scan_all_invariant[where P = ?P, OF assms(1)])
    show "?P st" using assms(2) by simp
    show "length (reads st) = length (reads st)" ..
    show "\<forall>i\<in>set [0..<length (reads st)]. i < length (reads st)" by simp
  next
    fix i s s'
    assume P: "?P s" and len: "length (reads s) = length (reads st)"
      and i: "i < length (reads st)" and sf: "scan_fragment E k m i s = Inr s'"
    from i len have "i < length (reads s)" by simp
    from scan_fragment_active[OF this sf] P show "?P s'" by auto
  qed
  then show ?thesis by simp
qed

text \<open>
  \<^verbatim>\<open>
  made_progress = True
  while made_progress:
      made_progress = False
      for i, r in enumerate(reads):
          ...
  \<close>
  A pass that sets the flag has retired a fragment, and no pass adds one: the number of
  truthy entries of the list decreases, which is the termination argument.
\<close>

function assemble_loop :: "enumeration \<Rightarrow> int \<Rightarrow> int \<Rightarrow> assembly \<Rightarrow> py_error + assembly" where
  "assemble_loop enum k min_olap st =
     (if made_progress st then
        (case scan_all enum k min_olap [0..<length (reads st)]
                (st\<lparr>made_progress := False, merge_log := 0 # merge_log st\<rparr>) of
           Inl e \<Rightarrow> Inl e
         | Inr st' \<Rightarrow> assemble_loop enum k min_olap st')
      else Inr st)"
  by pat_completeness auto
termination
proof (relation "measure (\<lambda>(enum, k, min_olap, st).
         2 * active_count (reads st) + (if made_progress st then 1 else 0))", goal_cases)
  case 1
  show ?case by simp
next
  case (2 enum k min_olap st st')
  let ?st1 = "st\<lparr>made_progress := False, merge_log := 0 # merge_log st\<rparr>"
  from 2(2) have "scan_all enum k min_olap [0..<length (reads ?st1)] ?st1 = Inr st'" by simp
  from scan_all_active[OF this] 2(1) show ?case by auto
qed

declare assemble_loop.simps [simp del]


section \<open>Contig Finalizer and the entry point\<close>

text \<open>
  \<^verbatim>\<open>
  contigs = [r for r in reads if r]
  contigs.sort(key=len, reverse=True)
  return "".join(contigs)
  \<close>
  Python's \<^verbatim>\<open>list.sort\<close> is stable, also with \<^verbatim>\<open>reverse=True\<close>: elements of equal key
  keep their order. \<open>sort_key\<close> is a stable insertion sort, used here with the
  negated length as key.
\<close>

definition contigs_of :: "fragment list \<Rightarrow> string list" where
  "contigs_of rs = map the (filter truthy rs)"

definition sort_by_length_desc :: "string list \<Rightarrow> string list" where
  "sort_by_length_desc cs = sort_key (\<lambda>c. - int (length c)) cs"

definition finalize :: "fragment list \<Rightarrow> string" where
  "finalize rs = concat (sort_by_length_desc (contigs_of rs))"

text \<open>
  \<^verbatim>\<open>
  def greedy_assemble_indexed(reads_in, k, min_olap):
      reads = list(reads_in)
      idx = build_prefix_index(reads, k)
      made_progress = True
      while made_progress: ...
      ...
      return "".join(contigs)
  \<close>
  \<open>assemble\<close> is the function up to the end of the \<^verbatim>\<open>while\<close> loop.
\<close>

definition initial_assembly :: "string list \<Rightarrow> int \<Rightarrow> assembly" where
  "initial_assembly reads_in k =
     (let rs = map Some reads_in in
      \<lparr>reads = rs, idx = build_prefix_index rs k, made_progress = True, merge_log = []\<rparr>)"

definition assemble :: "enumeration \<Rightarrow> string list \<Rightarrow> int \<Rightarrow> int \<Rightarrow> py_error + assembly" where
  "assemble enum reads_in k min_olap = assemble_loop enum k min_olap (initial_assembly reads_in k)"

definition greedy_assemble_indexed ::
  "enumeration \<Rightarrow> string list \<Rightarrow> int \<Rightarrow> int \<Rightarrow> py_error + string" where
  "greedy_assemble_indexed enum reads_in k min_olap =
     (case assemble enum reads_in k min_olap of
        Inl e \<Rightarrow> Inl e
      | Inr st \<Rightarrow> Inr (finalize (reads st)))"


section \<open>Invariants of the loops\<close>

lemma scan_all_no_error:
  assumes "P st" "length (reads st) = n" "\<forall>i\<in>set js. i < n"
    and step: "\<And>i s. P s \<Longrightarrow> length (reads s) = n \<Longrightarrow> i < n
        \<Longrightarrow> \<exists>s'. scan_fragment E k m i s = Inr s' \<and> P s'"
  shows "\<exists>st'. scan_all E k m js st = Inr st'"
  using assms(1-3)
proof (induction js arbitrary: st)
  case Nil
  then show ?case by simp
next
  case (Cons i js)
  from Cons.prems have i: "i < n" "i < length (reads st)" by auto
  from step[OF Cons.prems(1) Cons.prems(2) i(1)]
  obtain s1 where s1: "scan_fragment E k m i st = Inr s1" "P s1" by blast
  from scan_fragment_length[OF i(2) s1(1)] Cons.prems(2) have "length (reads s1) = n" by simp
  moreover from Cons.prems(3) have "\<forall>i\<in>set js. i < n" by simp
  ultimately obtain st' where "scan_all E k m js s1 = Inr st'"
    using Cons.IH[OF s1(2)] by blast
  with s1 show ?case by simp
qed

lemma assemble_loop_invariant:
  assumes "assemble_loop E k m st = Inr st'" "P st"
    and pass: "\<And>s s'. P s \<Longrightarrow> made_progress s \<Longrightarrow>
        scan_all E k m [0..<length (reads s)]
          (s\<lparr>made_progress := False, merge_log := 0 # merge_log s\<rparr>) = Inr s' \<Longrightarrow> P s'"
  shows "P st' \<and> \<not> made_progress st'"
  using assms
proof (induction E k m st rule: assemble_loop.induct)
  case (1 E k m st)
  show ?case
  proof (cases "made_progress st")
    case False
    with "1.prems"(1,2) show ?thesis by (simp add: assemble_loop.simps)
  next
    case True
    let ?st1 = "st\<lparr>made_progress := False, merge_log := 0 # merge_log st\<rparr>"
    from True "1.prems"(1) obtain s1
      where s1: "scan_all E k m [0..<length (reads st)] ?st1 = Inr s1"
        and rest: "assemble_loop E k m s1 = Inr st'"
      by (subst (asm) assemble_loop.simps) (auto split: sum.splits)
    from "1.prems"(3)[OF "1.prems"(2) True s1] have "P s1" .
    from "1.IH"[OF True s1 rest this "1.prems"(3)] show ?thesis .
  qed
qed

lemma assemble_loop_no_error:
  assumes "P st"
    and pass: "\<And>s. P s \<Longrightarrow> made_progress s \<Longrightarrow>
        \<exists>s'. scan_all E k m [0..<length (reads s)]
          (s\<lparr>made_progress := False, merge_log := 0 # merge_log s\<rparr>) = Inr s' \<and> P s'"
  shows "\<exists>st'. assemble_loop E k m st = Inr st'"
  using assms
proof (induction E k m st rule: assemble_loop.induct)
  case (1 E k m st)
  show ?case
  proof (cases "made_progress st")
    case False
    then show ?thesis by (simp add: assemble_loop.simps)
  next
    case True
    let ?st1 = "st\<lparr>made_progress := False, merge_log := 0 # merge_log st\<rparr>"
    from "1.prems"(2)[OF "1.prems"(1) True] obtain s1
      where s1: "scan_all E k m [0..<length (reads st)] ?st1 = Inr s1" and P1: "P s1"
      by blast
    from "1.IH"[OF True s1 P1 "1.prems"(2)] obtain st'
      where "assemble_loop E k m s1 = Inr st'" by blast
    with True s1 show ?thesis by (subst assemble_loop.simps) simp
  qed
qed

subsection \<open>The index invariant\<close>

lemma index_ok_bucket:
  assumes "index_ok rs ix k" "ix p = Some S"
  shows "finite S \<and> (\<forall>x\<in>S. x < length rs)"
proof -
  have sub: "S \<subseteq> {..<length rs}"
  proof
    fix x assume "x \<in> S"
    with assms(2) have "bound ix p x" by (simp add: bound_def)
    with assms(1) show "x \<in> {..<length rs}" by (simp add: index_ok_def)
  qed
  then have "finite S" by (rule finite_subset) simp
  with sub show ?thesis by auto
qed

lemma choose_partner_no_error:
  assumes "enumerates E" "index_ok (reads st) (idx st) k"
  shows "\<exists>c. choose_partner E k m i st = Inr c"
proof (cases "reads st ! i")
  case None
  then show ?thesis by (simp add: choose_partner_def)
next
  case (Some r)
  show ?thesis
  proof (cases "idx st (py_suffix r k)")
    case None
    with Some show ?thesis by (simp add: choose_partner_def)
  next
    case S: (Some S)
    from index_ok_bucket[OF assms(2) S] assms(1)
    have "\<forall>j\<in>set (E st i S). j < length (reads st)" by (simp add: enumerates_def)
    from best_partner_no_error[OF this, of i r m "(None, 0)"]
    obtain best' where "best_partner (reads st) i r m (E st i S) (None, 0) = Inr best'" by blast
    with Some S show ?thesis
      by (cases best') (auto simp: choose_partner_def Let_def split: option.splits)
  qed
qed

lemma scan_fragment_index_ok:
  assumes "i < length (reads st)" "scan_fragment E k m i st = Inr st'"
    and "index_ok (reads st) (idx st) k"
  shows "index_ok (reads st') (idx st') k"
  using assms(1,2)
proof (cases rule: scan_fragment_step)
  case skip
  with assms(3) show ?thesis by simp
next
  case (merge r j ol rj)
  let ?merged = "r @ drop (nat ol) rj"
  have "bound (idx st') q x \<longleftrightarrow> x < length (reads st') \<and> key_of (reads st' ! x) k = Some q"
    for q x
  proof -
    from assms(3) have old: "bound (idx st) q x \<longleftrightarrow>
        x < length (reads st) \<and> key_of (reads st ! x) k = Some q"
      by (simp add: index_ok_def)
    consider "x = i" | "x = j" | "x \<noteq> i" "x \<noteq> j" by blast
    then show ?thesis
    proof cases
      case 1
      with merge assms(1) old show ?thesis by (auto simp: merge(17))
    next
      case 2
      with merge assms(1) old show ?thesis by (auto simp: merge(17) key_of_def)
    next
      case 3
      with merge assms(1) old show ?thesis by (auto simp: merge(17))
    qed
  qed
  then show ?thesis by (simp add: index_ok_def)
qed

lemma build_from_bound:
  "bound (build_from n rs k ix) q x \<longleftrightarrow>
     bound ix q x \<or> (n \<le> x \<and> x < n + length rs \<and> key_of (rs ! (x - n)) k = Some q)"
proof (induction rs arbitrary: n ix)
  case Nil
  then show ?case by auto
next
  case (Cons r rs)
  let ?tail = "Suc n \<le> x \<and> x < Suc n + length rs \<and> key_of (rs ! (x - Suc n)) k = Some q"
  have split: "(n \<le> x \<and> x < n + length (r # rs) \<and> key_of ((r # rs) ! (x - n)) k = Some q)
      \<longleftrightarrow> (x = n \<and> key_of r k = Some q) \<or> ?tail"
  proof (cases "x = n")
    case True
    then show ?thesis by simp
  next
    case False
    then have "n \<le> x \<longleftrightarrow> Suc n \<le> x" by auto
    moreover have "(r # rs) ! (x - n) = rs ! (x - Suc n)" if "Suc n \<le> x"
      using that by (simp add: nth_Cons')
    ultimately show ?thesis using False by auto
  qed
  have "bound (build_from n (r # rs) k ix) q x \<longleftrightarrow>
      bound ix q x \<or> (x = n \<and> key_of r k = Some q) \<or> ?tail"
  proof (cases "key_of r k")
    case None
    then have eq: "build_from n (r # rs) k ix = build_from (Suc n) rs k ix"
      by (auto simp: key_of_def split: option.splits if_splits)
    have "bound (build_from n (r # rs) k ix) q x \<longleftrightarrow> bound ix q x \<or> ?tail"
      by (simp only: eq Cons.IH[of "Suc n" ix])
    with None show ?thesis by simp
  next
    case (Some p)
    then have eq: "build_from n (r # rs) k ix = build_from (Suc n) rs k (setdefault_add ix p n)"
      by (auto simp: key_of_def split: option.splits if_splits)
    have "bound (build_from n (r # rs) k ix) q x \<longleftrightarrow>
        bound (setdefault_add ix p n) q x \<or> ?tail"
      by (simp only: eq Cons.IH[of "Suc n" "setdefault_add ix p n"])
    with Some show ?thesis by (auto simp: bound_setdefault_add)
  qed
  with split show ?case by blast
qed

lemma bound_empty: "\<not> bound Map.empty q x"
  by (simp add: bound_def)

lemma build_prefix_index_ok: "index_ok rs (build_prefix_index rs k) k"
  by (simp add: index_ok_def build_prefix_index_def build_from_bound bound_empty)

subsection \<open>The engine invariant\<close>

text \<open>
  What holds of the engine's state at every moment. With \<open>reads_in\<close> the input list:
  the index files exactly the fragments that are long enough, each under its prefix; the
  list keeps its length; every merge has retired one active fragment and has shortened
  the total length; after a merge some fragment is active; and the log records a merge
  in every pass but possibly the current one, in step with the progress flag.
\<close>

definition engine_inv :: "string list \<Rightarrow> int \<Rightarrow> assembly \<Rightarrow> bool" where
  "engine_inv reads_in k s \<longleftrightarrow>
     index_ok (reads s) (idx s) k
     \<and> length (reads s) = length reads_in
     \<and> active_count (reads s) + sum_list (merge_log s) = active_count (map Some reads_in)
     \<and> total_length (reads s) + sum_list (merge_log s) \<le> sum_list (map length reads_in)
     \<and> (0 < sum_list (merge_log s) \<longrightarrow> 0 < active_count (reads s))
     \<and> (\<forall>x\<in>set (tl (merge_log s)). 0 < x)
     \<and> (merge_log s \<noteq> [] \<longrightarrow> (made_progress s \<longleftrightarrow> 0 < hd (merge_log s)))
     \<and> (made_progress s \<or> merge_log s \<noteq> [])"

lemma total_length_Some: "total_length (map Some xs) = sum_list (map length xs)"
  by (simp add: total_length_def comp_def)

lemma engine_inv_initial: "engine_inv reads_in k (initial_assembly reads_in k)"
  by (simp add: engine_inv_def initial_assembly_def Let_def build_prefix_index_ok
      total_length_Some)

lemma engine_inv_pass_start:
  assumes "engine_inv reads_in k s" "made_progress s"
  shows "engine_inv reads_in k (s\<lparr>made_progress := False, merge_log := 0 # merge_log s\<rparr>)"
proof -
  from assms have "\<forall>x\<in>set (merge_log s). 0 < x"
    by (cases "merge_log s") (auto simp: engine_inv_def)
  with assms show ?thesis by (simp add: engine_inv_def)
qed

lemma count_merge_tl: "tl (count_merge log) = tl log"
  by (cases log) (simp_all add: count_merge_def)

lemma count_merge_hd: "0 < hd (count_merge log) \<and> count_merge log \<noteq> []"
  by (cases log) (simp_all add: count_merge_def)

lemma engine_inv_step:
  assumes "engine_inv reads_in k s" "i < length (reads s)"
    and "scan_fragment E k m i s = Inr s'"
  shows "engine_inv reads_in k s'"
proof -
  from scan_fragment_index_ok[OF assms(2,3)] assms(1)
  have ix: "index_ok (reads s') (idx s') k" by (simp add: engine_inv_def)
  from scan_fragment_length[OF assms(2,3)] assms(1)
  have len: "length (reads s') = length reads_in" by (simp add: engine_inv_def)
  from scan_fragment_active[OF assms(2,3)] scan_fragment_total[OF assms(2,3)]
  consider "s' = s"
    | "made_progress s'" "Suc (active_count (reads s')) = active_count (reads s)"
      "merge_log s' = count_merge (merge_log s)" "0 < active_count (reads s')"
      "total_length (reads s') < total_length (reads s)"
    by auto
  then show ?thesis
  proof cases
    case 1
    with assms(1) show ?thesis by simp
  next
    case 2
    with assms(1) ix len show ?thesis
      by (simp add: engine_inv_def count_merge_sum count_merge_tl count_merge_hd)
  qed
qed

lemma scan_all_engine_inv:
  assumes "enumerates E" "engine_inv reads_in k s" "\<forall>i\<in>set js. i < length reads_in"
  shows "\<exists>s'. scan_all E k m js s = Inr s' \<and> engine_inv reads_in k s'"
proof -
  let ?n = "length reads_in"
  from assms(2) have len: "length (reads s) = ?n" by (simp add: engine_inv_def)
  have step: "\<exists>t'. scan_fragment E k m i t = Inr t' \<and> engine_inv reads_in k t'"
    if "engine_inv reads_in k t" "length (reads t) = ?n" "i < ?n" for i t
  proof -
    from that have i: "i < length (reads t)" by simp
    from that(1) have "index_ok (reads t) (idx t) k" by (simp add: engine_inv_def)
    from choose_partner_no_error[OF assms(1) this, of m i]
    obtain c where "choose_partner E k m i t = Inr c" by blast
    with scan_fragment_cases[OF i, of E k m]
    obtain t' where t': "scan_fragment E k m i t = Inr t'" by auto
    from engine_inv_step[OF that(1) i t'] t' show ?thesis by blast
  qed
  from scan_all_no_error[where P = "engine_inv reads_in k", OF assms(2) len assms(3) step]
  obtain s' where s': "scan_all E k m js s = Inr s'" by blast
  have "engine_inv reads_in k s' \<and> length (reads s') = ?n"
  proof (rule scan_all_invariant[where P = "engine_inv reads_in k", OF s' assms(2) len assms(3)])
    fix i t t'
    assume "engine_inv reads_in k t" "length (reads t) = ?n" "i < ?n"
      "scan_fragment E k m i t = Inr t'"
    then show "engine_inv reads_in k t'" by (auto intro: engine_inv_step)
  qed
  with s' show ?thesis by blast
qed

lemma pass_engine_inv:
  assumes "enumerates E" "engine_inv reads_in k s" "made_progress s"
  shows "\<exists>s'. scan_all E k m [0..<length (reads s)]
          (s\<lparr>made_progress := False, merge_log := 0 # merge_log s\<rparr>) = Inr s'
        \<and> engine_inv reads_in k s'"
proof -
  from assms(2) have "\<forall>i\<in>set [0..<length (reads s)]. i < length reads_in"
    by (simp add: engine_inv_def)
  from scan_all_engine_inv[OF assms(1) engine_inv_pass_start[OF assms(2,3)] this]
  show ?thesis .
qed

lemma assemble_engine_inv:
  assumes "enumerates E"
  shows "\<exists>st. assemble E reads_in k m = Inr st \<and> engine_inv reads_in k st
     \<and> \<not> made_progress st"
proof -
  let ?P = "engine_inv reads_in k"
  let ?s0 = "initial_assembly reads_in k"
  have P0: "?P ?s0" by (rule engine_inv_initial)
  have "\<exists>st. assemble_loop E k m ?s0 = Inr st"
    by (rule assemble_loop_no_error[where P = ?P, OF P0]) (rule pass_engine_inv[OF assms])
  then obtain st where st: "assemble_loop E k m ?s0 = Inr st" by blast
  have "?P st \<and> \<not> made_progress st"
  proof (rule assemble_loop_invariant[where P = ?P, OF st P0])
    fix s s'
    assume "?P s" "made_progress s" "scan_all E k m [0..<length (reads s)]
          (s\<lparr>made_progress := False, merge_log := 0 # merge_log s\<rparr>) = Inr s'"
    with pass_engine_inv[OF assms, of reads_in k s m] show "?P s'" by auto
  qed
  with st show ?thesis by (simp add: assemble_def)
qed


section \<open>Termination and resource bounds\<close>

lemma enumerates_ascending: "enumerates ascending"
  by (simp add: enumerates_def ascending_def)

lemma positive_entries_length:
  fixes xs :: "nat list"
  shows "\<forall>x\<in>set xs. 0 < x \<Longrightarrow> length xs \<le> sum_list xs"
proof (induction xs)
  case Nil
  then show ?case by simp
next
  case (Cons x xs)
  then have "0 < x" "length xs \<le> sum_list xs" by auto
  then show ?case by simp
qed

lemma active_count_le: "active_count rs \<le> length rs"
  by (simp add: active_count_def)

lemma engine_inv_final_counts:
  assumes "engine_inv reads_in k st" "\<not> made_progress st"
  shows "merge_log st \<noteq> [] \<and> hd (merge_log st) = 0
     \<and> sum_list (merge_log st) \<le> length reads_in - 1
     \<and> length (merge_log st) \<le> max 1 (length reads_in)"
proof -
  let ?log = "merge_log st"
  from assms have ne: "?log \<noteq> []" and hd0: "hd ?log = 0"
    and tl: "\<forall>x\<in>set (tl ?log). 0 < x"
    by (auto simp: engine_inv_def)
  from ne hd0 have sum: "sum_list ?log = sum_list (tl ?log)" by (cases ?log) auto
  from ne have len: "length ?log = Suc (length (tl ?log))" by (cases ?log) auto
  from positive_entries_length[OF tl] sum have passes: "length (tl ?log) \<le> sum_list ?log"
    by simp
  have merges: "sum_list ?log \<le> length reads_in - 1"
  proof (cases "sum_list ?log = 0")
    case True
    show ?thesis unfolding True by simp
  next
    case False
    with assms(1) have "0 < active_count (reads st)"
      "active_count (reads st) + sum_list ?log = active_count (map Some reads_in)"
      by (auto simp: engine_inv_def)
    moreover have "active_count (map Some reads_in) \<le> length reads_in"
      using active_count_le[of "map Some reads_in"] by simp
    ultimately show ?thesis by linarith
  qed
  from passes merges len have "length ?log \<le> max 1 (length reads_in)" by arith
  with ne hd0 merges show ?thesis by blast
qed

text \<open>
  Claim C3, as amended. For every input list of \<open>N\<close> fragments and every \<open>k\<close> and
  \<open>min_olap\<close> (in particular every \<open>k \<ge> 1\<close>), the engine halts with a result. It
  performs at most \<open>max (N - 1) 0\<close> merges, and each merge lowers the number of
  active fragments by one. It makes at most \<open>max N 1\<close> passes; the last pass makes no
  merge and every earlier pass makes one. For \<open>N \<ge> 1\<close> the bounds are \<open>N - 1\<close>
  merges and \<open>N\<close> passes; the empty list takes one pass and no merge. The bounds are
  stated over the integers, where \<open>N - 1\<close> is \<open>-1\<close> for \<open>N = 0\<close>.
\<close>

theorem engine_halts:
  assumes "enumerates E"
  shows "\<exists>st. assemble E reads_in k m = Inr st
     \<and> merge_log st \<noteq> [] \<and> hd (merge_log st) = 0 \<and> (\<forall>x\<in>set (tl (merge_log st)). 0 < x)
     \<and> int (sum_list (merge_log st)) \<le> max (int (length reads_in) - 1) 0
     \<and> int (length (merge_log st)) \<le> max (int (length reads_in)) 1
     \<and> active_count (reads st) + sum_list (merge_log st) = active_count (map Some reads_in)"
proof -
  from assemble_engine_inv[OF assms, of reads_in k m]
  obtain st where st: "assemble E reads_in k m = Inr st" "engine_inv reads_in k st"
    "\<not> made_progress st" by blast
  from engine_inv_final_counts[OF st(2,3)]
  have ne: "merge_log st \<noteq> []" and hd0: "hd (merge_log st) = 0"
    and merges: "sum_list (merge_log st) \<le> length reads_in - 1"
    and passes: "length (merge_log st) \<le> max 1 (length reads_in)"
    by blast+
  from merges have mi: "int (sum_list (merge_log st)) \<le> max (int (length reads_in) - 1) 0"
    by arith
  from passes have pi: "int (length (merge_log st)) \<le> max (int (length reads_in)) 1"
    by arith
  from st(2) have tl: "\<forall>x\<in>set (tl (merge_log st)). 0 < x"
    and act: "active_count (reads st) + sum_list (merge_log st)
      = active_count (map Some reads_in)"
    by (simp_all add: engine_inv_def)
  from st(1) ne hd0 tl mi pi act show ?thesis by blast
qed

theorem engine_halts_witness:
  "enumerates ascending
   \<and> map_sum id merge_log
        (assemble ascending [''AC'', ''ACGTA'', ''GTACC'', ''CCTT'', ''TAC''] 2 2)
      = Inr [0, 3]
   \<and> (\<exists>st. assemble ascending [''AC'', ''ACGTA'', ''GTACC'', ''CCTT'', ''TAC''] 2 2
          = Inr st
        \<and> int (sum_list (merge_log st)) \<le> 5 - 1 \<and> int (length (merge_log st)) \<le> 5)"
proof -
  define xs where "xs = [''AC'', ''ACGTA'', ''GTACC'', ''CCTT'', ''TAC'']"
  have n: "int (length xs) = 5" by (simp add: xs_def)
  have v: "map_sum id merge_log (assemble ascending xs 2 2) = Inr [0, 3]"
    unfolding xs_def by code_simp
  from engine_halts[OF enumerates_ascending, of xs 2 2]
  obtain st where a: "assemble ascending xs 2 2 = Inr st"
    and b: "int (sum_list (merge_log st)) \<le> max (int (length xs) - 1) 0"
    and c: "int (length (merge_log st)) \<le> max (int (length xs)) 1"
    by blast
  from b have b': "int (sum_list (merge_log st)) \<le> 5 - 1" unfolding n by simp
  from c have c': "int (length (merge_log st)) \<le> 5" unfolding n by simp
  have "\<exists>st. assemble ascending xs 2 2 = Inr st
        \<and> int (sum_list (merge_log st)) \<le> 5 - 1 \<and> int (length (merge_log st)) \<le> 5"
    by (intro exI conjI) (rule a b' c')+
  with v enumerates_ascending show ?thesis unfolding xs_def by (intro conjI)
qed

text \<open>
  Claim C3 as stated fails for the empty list: \<open>N = 0\<close>, but the \<^verbatim>\<open>while\<close> loop runs
  its body once before it tests the flag again, so the engine makes one pass, which is
  more than \<open>N\<close>; and its zero merges are more than \<open>N - 1 = -1\<close>.
\<close>

theorem engine_passes_counterexample:
  "map_sum id merge_log (assemble ascending [] 1 1) = Inr [0]
   \<and> \<not> int (length [0::nat]) \<le> int (length ([] :: string list))
   \<and> \<not> int (sum_list [0::nat]) \<le> int (length ([] :: string list)) - 1"
proof -
  have "map_sum id merge_log (assemble ascending [] 1 1) = Inr [0]" by code_simp
  then show ?thesis by simp
qed

subsection \<open>Length of the output\<close>

lemma sum_list_insort_key:
  fixes g :: "'a \<Rightarrow> nat"
  shows "sum_list (map g (insort_key f x xs)) = g x + sum_list (map g xs)"
  by (induction xs) simp_all

lemma sum_list_sort_key:
  fixes g :: "'a \<Rightarrow> nat"
  shows "sum_list (map g (sort_key f xs)) = sum_list (map g xs)"
  by (induction xs) (simp_all add: sum_list_insort_key)

lemma contigs_total_length: "sum_list (map length (contigs_of rs)) = total_length rs"
proof (induction rs)
  case Nil
  then show ?case by (simp add: contigs_of_def total_length_def)
next
  case (Cons r rs)
  then show ?case
    by (cases r) (auto simp: contigs_of_def total_length_def truthy_def)
qed

lemma length_finalize: "length (finalize rs) = total_length rs"
  by (simp add: finalize_def sort_by_length_desc_def length_concat sum_list_sort_key
      contigs_total_length)

text \<open>
  Claim C5. For every input fragment list and every \<open>k\<close> (in particular \<open>k \<ge> 1\<close>) the
  engine returns a string whose length is at most the sum of the lengths of the input
  fragments, and the two are equal only if the run made no merge.
\<close>

theorem output_length_bound:
  assumes "enumerates E"
  shows "\<exists>st out. assemble E reads_in k m = Inr st
     \<and> greedy_assemble_indexed E reads_in k m = Inr out
     \<and> length out \<le> sum_list (map length reads_in)
     \<and> (length out = sum_list (map length reads_in) \<longrightarrow> sum_list (merge_log st) = 0)"
proof -
  from assemble_engine_inv[OF assms, of reads_in k m]
  obtain st where st: "assemble E reads_in k m = Inr st" "engine_inv reads_in k st" by blast
  from st(2) have "total_length (reads st) + sum_list (merge_log st)
      \<le> sum_list (map length reads_in)"
    by (simp add: engine_inv_def)
  then have "length (finalize (reads st)) + sum_list (merge_log st)
      \<le> sum_list (map length reads_in)"
    by (simp add: length_finalize)
  moreover from st(1) have "greedy_assemble_indexed E reads_in k m = Inr (finalize (reads st))"
    by (simp add: greedy_assemble_indexed_def)
  ultimately show ?thesis using st(1) by auto
qed

theorem output_length_bound_witness:
  "enumerates ascending
   \<and> greedy_assemble_indexed ascending [''GGGG'', ''CCCC''] 4 4 = Inr ''GGGGCCCC''
   \<and> length ''GGGGCCCC'' = sum_list (map length [''GGGG'', ''CCCC''])
   \<and> (\<exists>st. assemble ascending [''GGGG'', ''CCCC''] 4 4 = Inr st
        \<and> sum_list (merge_log st) = 0)"
proof -
  have v: "greedy_assemble_indexed ascending [''GGGG'', ''CCCC''] 4 4
      = Inr ''GGGGCCCC''"
    by code_simp
  have l: "length ''GGGGCCCC'' = sum_list (map length [''GGGG'', ''CCCC''])" by simp
  from output_length_bound[OF enumerates_ascending, of "[''GGGG'', ''CCCC'']" 4 4]
  obtain st out where st: "assemble ascending [''GGGG'', ''CCCC''] 4 4 = Inr st"
    and out: "greedy_assemble_indexed ascending [''GGGG'', ''CCCC''] 4 4 = Inr out"
    and imp: "length out = sum_list (map length [''GGGG'', ''CCCC''])
        \<longrightarrow> sum_list (merge_log st) = 0"
    by blast
  from out v have "out = ''GGGGCCCC''" by simp
  with imp l have "sum_list (merge_log st) = 0" by blast
  with st v l enumerates_ascending show ?thesis by blast
qed


subsection \<open>Thresholds are not validated\<close>

text \<open>
  Claim C8, as amended. \<open>greedy_assemble_indexed\<close> does not check its thresholds: for
  every fragment list and all integers \<open>k\<close> and \<open>min_olap\<close>, non-positive ones and ones
  beyond the shortest fragment included, it raises no error and returns an assembled
  string.
\<close>

theorem thresholds_unchecked:
  assumes "enumerates E"
  shows "\<exists>out. greedy_assemble_indexed E reads_in k m = Inr out"
proof -
  from assemble_engine_inv[OF assms, of reads_in k m]
  obtain st where "assemble E reads_in k m = Inr st" by blast
  then show ?thesis by (simp add: greedy_assemble_indexed_def)
qed

theorem thresholds_unchecked_witness:
  "enumerates ascending
   \<and> (\<exists>out. greedy_assemble_indexed ascending [''ACGT'', ''GTAA''] 0 (- 3) = Inr out)"
  using thresholds_unchecked[OF enumerates_ascending, of "[''ACGT'', ''GTAA'']" 0 "- 3"]
    enumerates_ascending
  by blast

text \<open>
  Claim C8 as stated fails: with \<open>k = 0\<close>, with \<open>k = -1\<close>, and with \<open>k = 3\<close> on a list
  whose shortest fragment has length 2, the engine returns its output like for any other
  threshold.
\<close>

theorem thresholds_counterexample:
  "greedy_assemble_indexed ascending [''ACGT''] 0 0 = Inr ''ACGT''
   \<and> greedy_assemble_indexed ascending [''ACGT''] (- 1) (- 1) = Inr ''ACGT''
   \<and> greedy_assemble_indexed ascending [''AC'', ''ACGTA'', ''GTACC''] 3 3
      = Inr ''ACGTACCAC''"
  by code_simp

subsection \<open>Rebinding an absent binding\<close>

lemma update_absent:
  assumes "\<not> bound ix (py_prefix s k) i"
  shows "update_prefix_index ix i (Some s) new k = update_prefix_index ix i None new k"
proof -
  from assms have "remove_binding ix i (py_prefix s k) = Inr ix"
    by (auto simp: remove_binding_def bound_def split: option.splits)
  then show ?thesis by (simp add: update_prefix_index_def)
qed

lemma update_retire_nothing: "update_prefix_index ix i None None k = Inr ix"
  by (simp add: update_prefix_index_def)

text \<open>
  Claim C7, as amended. A call of \<open>update_prefix_index\<close> that is asked to remove a
  binding which the index does not hold (the identifier is not in the bucket of the old
  prefix, or there is no such bucket) raises nothing: the removal is skipped, the call
  goes on to insert the new binding if there is one, and with no new sequence it returns
  the index unchanged.
\<close>

theorem rebind_absent_completes:
  assumes "\<not> bound ix (py_prefix s k) i"
  shows "update_prefix_index ix i (Some s) None k = Inr ix
     \<and> update_prefix_index ix i (Some s) new k = update_prefix_index ix i None new k
     \<and> (\<exists>ix'. update_prefix_index ix i (Some s) new k = Inr ix')"
proof -
  from update_prefix_index_bound[of ix i "Some s" new k]
  have "\<exists>ix'. update_prefix_index ix i (Some s) new k = Inr ix'" by blast
  with update_absent[OF assms] update_retire_nothing show ?thesis by simp
qed

lemma no_binding_example: "\<not> bound (build_prefix_index [Some ''AAAA''] 4) (py_prefix ''AAAA'' 4) 1"
  by (simp add: build_prefix_index_def bound_def setdefault_add_def py_prefix_def)

theorem rebind_absent_completes_witness:
  "\<not> bound (build_prefix_index [Some ''AAAA''] 4) (py_prefix ''AAAA'' 4) 1
   \<and> update_prefix_index (build_prefix_index [Some ''AAAA''] 4) 1 (Some ''AAAA'') None 4
      = Inr (build_prefix_index [Some ''AAAA''] 4)"
  using rebind_absent_completes[OF no_binding_example] no_binding_example by blast

text \<open>
  Claim C7 as stated fails: fragment 1 is not in the bucket \<open>AAAA\<close> of the index built
  from the single fragment \<open>AAAA\<close>, and neither bucket nor fragment is in the empty index;
  the call that retires it from there returns normally, with the index as it was.
\<close>

theorem rebind_absent_counterexample:
  "\<not> bound (build_prefix_index [Some ''AAAA''] 4) ''AAAA'' 1
   \<and> update_prefix_index (build_prefix_index [Some ''AAAA''] 4) 1 (Some ''AAAA'') None 4
      = Inr (build_prefix_index [Some ''AAAA''] 4)
   \<and> update_prefix_index (build_prefix_index [] 4) 0 (Some ''AAAA'') None 4
      = Inr (build_prefix_index [] 4)"
proof -
  have p: "py_prefix ''AAAA'' 4 = ''AAAA''" by (simp add: py_prefix_def)
  have "\<not> bound (build_prefix_index [] 4) (py_prefix ''AAAA'' 4) 0"
    by (simp add: build_prefix_index_def bound_def)
  from update_absent[OF this, of None] update_absent[OF no_binding_example, of None]
    no_binding_example
  show ?thesis by (simp add: update_retire_nothing p)
qed

subsection \<open>The merged sequence\<close>

text \<open>
  Claim C4. Whenever the scan of fragment \<open>i\<close> chooses a partner \<open>j\<close> with overlap
  \<open>L\<close>, the merge succeeds and retires \<open>j\<close>; the first \<open>length r\<close> characters of the
  merged sequence are the sequence \<open>r\<close> that fragment \<open>i\<close> had, and its last
  \<open>length rj - L\<close> characters are the sequence \<open>rj\<close> of \<open>j\<close> from position \<open>L\<close> on.
\<close>

theorem merge_correct:
  assumes "i < length (reads st)" "choose_partner E k m i st = Inr (Some (r, j, L))"
  shows "\<exists>st' rj merged. scan_fragment E k m i st = Inr st'
     \<and> reads st ! i = Some r \<and> reads st ! j = Some rj
     \<and> 0 < L \<and> nat L \<le> length rj
     \<and> reads st' ! i = Some merged \<and> reads st' ! j = None
     \<and> take (length r) merged = r
     \<and> drop (length merged - (length rj - nat L)) merged = drop (nat L) rj"
proof -
  from scan_fragment_cases[OF assms(1), of E k m] assms(2)
  obtain st' where st': "scan_fragment E k m i st = Inr st'" by auto
  from assms(1) st' show ?thesis
  proof (cases rule: scan_fragment_step)
    case skip
    with assms(2) show ?thesis by simp
  next
    case (merge r' j' ol rj)
    from merge(1) assms(2) have eq: "r' = r" "j' = j" "ol = L" by simp_all
    let ?merged = "r @ drop (nat L) rj"
    from merge assms(1) have "reads st' ! i = Some ?merged" "reads st' ! j = None"
      unfolding eq by simp_all
    moreover from merge(13) have le: "nat L \<le> length rj" unfolding eq by simp
    then have "drop (length ?merged - (length rj - nat L)) ?merged = drop (nat L) rj"
      by simp
    ultimately show ?thesis using st' merge(2,3,10) le unfolding eq by auto
  qed
qed

theorem merge_correct_witness:
  "choose_partner ascending 4 4 0 (initial_assembly [''ACGTACG'', ''TACGTTT''] 4)
     = Inr (Some (''ACGTACG'', 1, 4))
   \<and> (\<exists>st' merged.
        scan_fragment ascending 4 4 0 (initial_assembly [''ACGTACG'', ''TACGTTT''] 4)
          = Inr st'
        \<and> reads st' ! 0 = Some merged \<and> reads st' ! 1 = None
        \<and> take (length ''ACGTACG'') merged = ''ACGTACG''
        \<and> drop (length merged - (length ''TACGTTT'' - nat 4)) merged
            = drop (nat 4) ''TACGTTT'')"
proof -
  let ?st = "initial_assembly [''ACGTACG'', ''TACGTTT''] 4"
  have c: "choose_partner ascending 4 4 0 ?st = Inr (Some (''ACGTACG'', 1, 4))"
    by code_simp
  have i: "0 < length (reads ?st)" by (simp add: initial_assembly_def Let_def)
  have rj: "reads ?st ! 1 = Some ''TACGTTT''" by (simp add: initial_assembly_def Let_def)
  from merge_correct[OF i c] rj obtain st' merged
    where "scan_fragment ascending 4 4 0 ?st = Inr st'"
      "reads st' ! 0 = Some merged" "reads st' ! 1 = None"
      "take (length ''ACGTACG'') merged = ''ACGTACG''"
      "drop (length merged - (length ''TACGTTT'' - nat 4)) merged = drop (nat 4) ''TACGTTT''"
    by auto
  with c show ?thesis by blast
qed

section \<open>The order of the output\<close>

text \<open>
  The order of the specification on fragment identifiers: by descending length of the
  sequence, and by ascending identifier among sequences of equal length. \<open>seq_of\<close> is
  the sequence of a fragment.
\<close>

definition seq_of :: "fragment list \<Rightarrow> nat \<Rightarrow> string" where
  "seq_of rs i = (case rs ! i of None \<Rightarrow> [] | Some s \<Rightarrow> s)"

definition finalizer_order :: "fragment list \<Rightarrow> nat \<Rightarrow> nat \<Rightarrow> bool" where
  "finalizer_order rs a b \<longleftrightarrow>
     length (seq_of rs b) < length (seq_of rs a)
     \<or> (length (seq_of rs a) = length (seq_of rs b) \<and> a < b)"

lemma filter_by_position:
  "filter P xs = map (nth xs) (filter (\<lambda>i. P (xs ! i)) [0..<length xs])"
proof (induction xs rule: rev_induct)
  case Nil
  then show ?case by simp
next
  case (snoc x xs)
  have f: "filter (\<lambda>i. P ((xs @ [x]) ! i)) [0..<length xs]
      = filter (\<lambda>i. P (xs ! i)) [0..<length xs]"
    by (rule filter_cong) (simp_all add: nth_append)
  have m: "map (nth (xs @ [x])) (filter (\<lambda>i. P (xs ! i)) [0..<length xs])
      = map (nth xs) (filter (\<lambda>i. P (xs ! i)) [0..<length xs])"
    by (rule map_cong) (simp_all add: nth_append)
  from snoc f m show ?case by simp
qed

lemma map_insort_key:
  "map g (insort_key (\<lambda>x. f (g x)) x xs) = insort_key f (g x) (map g xs)"
  by (induction xs) simp_all

lemma map_sort_key: "map g (sort_key (\<lambda>x. f (g x)) xs) = sort_key f (map g xs)"
  by (induction xs) (simp_all add: map_insort_key)

lemma sorted_wrt_insort_key:
  fixes f :: "'a::linorder \<Rightarrow> 'b::linorder"
  assumes "sorted_wrt (\<lambda>a b. f a < f b \<or> (f a = f b \<and> a < b)) ys" "\<forall>y\<in>set ys. x < y"
  shows "sorted_wrt (\<lambda>a b. f a < f b \<or> (f a = f b \<and> a < b)) (insort_key f x ys)"
  using assms
proof (induction ys)
  case Nil
  then show ?case by simp
next
  case (Cons y ys)
  show ?case
  proof (cases "f x \<le> f y")
    case True
    have "f x < f z \<or> (f x = f z \<and> x < z)" if "z \<in> set (y # ys)" for z
    proof -
      from that Cons.prems(1) have "f y \<le> f z" by auto
      with True have "f x \<le> f z" by simp
      moreover from that Cons.prems(2) have "x < z" by auto
      ultimately show ?thesis by auto
    qed
    with True Cons.prems(1) show ?thesis by simp
  next
    case False
    from Cons.prems have "sorted_wrt (\<lambda>a b. f a < f b \<or> (f a = f b \<and> a < b)) (insort_key f x ys)"
      by (intro Cons.IH) simp_all
    with False Cons.prems(1) show ?thesis by (auto simp: set_insort_key)
  qed
qed

lemma sorted_wrt_sort_key:
  fixes f :: "'a::linorder \<Rightarrow> 'b::linorder"
  assumes "sorted_wrt (<) xs"
  shows "sorted_wrt (\<lambda>a b. f a < f b \<or> (f a = f b \<and> a < b)) (sort_key f xs)"
  using assms
proof (induction xs)
  case Nil
  then show ?case by simp
next
  case (Cons x xs)
  then have "sorted_wrt (\<lambda>a b. f a < f b \<or> (f a = f b \<and> a < b)) (sort_key f xs)"
    and "\<forall>y\<in>set (sort_key f xs). x < y"
    by simp_all
  then show ?case by (simp add: sorted_wrt_insort_key)
qed

lemma finalize_ordered:
  "\<exists>ids. set ids = {i. i < length rs \<and> truthy (rs ! i)}
     \<and> sorted_wrt (finalizer_order rs) ids
     \<and> finalize rs = concat (map (seq_of rs) ids)"
proof -
  let ?act = "filter (\<lambda>i. truthy (rs ! i)) [0..<length rs]"
  let ?key = "\<lambda>c::string. - int (length c)"
  let ?ids = "sort_key (\<lambda>i. ?key (seq_of rs i)) ?act"
  have 1: "set ?ids = {i. i < length rs \<and> truthy (rs ! i)}" by auto
  have "sorted_wrt (<) ?act" by (rule sorted_wrt_filter) (simp add: sorted_wrt_upt)
  from sorted_wrt_sort_key[OF this, of "\<lambda>i. ?key (seq_of rs i)"]
  have 2: "sorted_wrt (finalizer_order rs) ?ids"
    by (rule sorted_wrt_mono_rel[rotated]) (auto simp: finalizer_order_def)
  have "contigs_of rs = map the (map (nth rs) ?act)"
    unfolding contigs_of_def by (subst filter_by_position) simp
  also have "\<dots> = map (seq_of rs) ?act"
    by (auto simp: seq_of_def truthy_def split: option.splits)
  finally have "sort_by_length_desc (contigs_of rs) = sort_key ?key (map (seq_of rs) ?act)"
    by (simp add: sort_by_length_desc_def)
  also have "\<dots> = map (seq_of rs) ?ids" by (rule map_sort_key[symmetric])
  finally have 3: "finalize rs = concat (map (seq_of rs) ?ids)" by (simp add: finalize_def)
  from 1 2 3 show ?thesis by blast
qed

lemma finalize_ordered_all:
  "\<exists>ids. set ids = {i. i < length rs \<and> rs ! i \<noteq> None}
     \<and> sorted_wrt (finalizer_order rs) ids
     \<and> finalize rs = concat (map (seq_of rs) ids)"
proof -
  from finalize_ordered[of rs] obtain ids
    where ids: "set ids = {i. i < length rs \<and> truthy (rs ! i)}"
      "sorted_wrt (finalizer_order rs) ids"
      "finalize rs = concat (map (seq_of rs) ids)"
    by blast
  define es where "es = filter (\<lambda>i. rs ! i = Some []) [0..<length rs]"
  have empty: "seq_of rs i = []" if "i \<in> set es" for i
    using that by (simp add: es_def seq_of_def)
  have nonempty: "0 < length (seq_of rs i)" if "i \<in> set ids" for i
    using that ids(1) by (auto simp: seq_of_def truthy_def split: option.splits)
  have 1: "set (ids @ es) = {i. i < length rs \<and> rs ! i \<noteq> None}"
    using ids(1) by (auto simp: es_def truthy_def split: option.splits)
  have "sorted_wrt (<) es" unfolding es_def by (rule sorted_wrt_filter) simp
  then have "sorted_wrt (finalizer_order rs) es"
    by (rule sorted_wrt_mono_rel[rotated]) (simp add: finalizer_order_def empty)
  moreover have "finalizer_order rs a b" if "a \<in> set ids" "b \<in> set es" for a b
    using nonempty[OF that(1)] empty[OF that(2)] by (simp add: finalizer_order_def)
  ultimately have 2: "sorted_wrt (finalizer_order rs) (ids @ es)"
    using ids(2) by (simp add: sorted_wrt_append)
  have "concat (map (seq_of rs) es) = []" by (simp add: empty)
  with ids(3) have 3: "finalize rs = concat (map (seq_of rs) (ids @ es))" by simp
  from 1 2 3 show ?thesis by blast
qed

text \<open>
  Claim C6. The engine stops at the fixed point, where the last pass has made no merge,
  and what it returns is the concatenation of the sequences of exactly the fragments
  that are active then, taken by descending length and, among equal lengths, by
  ascending identifier. This holds with the active fragments read as the entries the
  finalizer keeps (neither \<^verbatim>\<open>None\<close> nor empty), and equally with them read as all
  entries that are not \<^verbatim>\<open>None\<close>, since empty sequences add nothing to the output.
\<close>

theorem finalizer_output:
  assumes "enumerates E"
  shows "\<exists>st. assemble E reads_in k m = Inr st \<and> \<not> made_progress st
     \<and> (\<exists>ids. set ids = {i. i < length (reads st) \<and> truthy (reads st ! i)}
          \<and> sorted_wrt (finalizer_order (reads st)) ids
          \<and> greedy_assemble_indexed E reads_in k m
              = Inr (concat (map (seq_of (reads st)) ids)))
     \<and> (\<exists>ids. set ids = {i. i < length (reads st) \<and> reads st ! i \<noteq> None}
          \<and> sorted_wrt (finalizer_order (reads st)) ids
          \<and> greedy_assemble_indexed E reads_in k m
              = Inr (concat (map (seq_of (reads st)) ids)))"
proof -
  from assemble_engine_inv[OF assms, of reads_in k m]
  obtain st where st: "assemble E reads_in k m = Inr st" "\<not> made_progress st" by blast
  from st(1) have out: "greedy_assemble_indexed E reads_in k m = Inr (finalize (reads st))"
    by (simp add: greedy_assemble_indexed_def)
  from finalize_ordered[of "reads st"]
  have a: "\<exists>ids. set ids = {i. i < length (reads st) \<and> truthy (reads st ! i)}
          \<and> sorted_wrt (finalizer_order (reads st)) ids
          \<and> greedy_assemble_indexed E reads_in k m
              = Inr (concat (map (seq_of (reads st)) ids))"
    unfolding out by simp
  from finalize_ordered_all[of "reads st"]
  have b: "\<exists>ids. set ids = {i. i < length (reads st) \<and> reads st ! i \<noteq> None}
          \<and> sorted_wrt (finalizer_order (reads st)) ids
          \<and> greedy_assemble_indexed E reads_in k m
              = Inr (concat (map (seq_of (reads st)) ids))"
    unfolding out by simp
  from st a b show ?thesis by blast
qed

theorem finalizer_output_witness:
  "enumerates ascending
   \<and> greedy_assemble_indexed ascending [''GG'', ''CCC'', ''AA'', ''TTT'', []] 4 4
      = Inr ''CCCTTTGGAA''
   \<and> (\<exists>st ids. assemble ascending [''GG'', ''CCC'', ''AA'', ''TTT'', []] 4 4 = Inr st
        \<and> set ids = {i. i < length (reads st) \<and> truthy (reads st ! i)}
        \<and> sorted_wrt (finalizer_order (reads st)) ids
        \<and> ''CCCTTTGGAA'' = concat (map (seq_of (reads st)) ids))"
proof -
  let ?in = "[''GG'', ''CCC'', ''AA'', ''TTT'', []]"
  have v: "greedy_assemble_indexed ascending ?in 4 4 = Inr ''CCCTTTGGAA''"
    by code_simp
  from finalizer_output[OF enumerates_ascending, of ?in 4 4]
  obtain st where a: "assemble ascending ?in 4 4 = Inr st"
    and "\<exists>ids. set ids = {i. i < length (reads st) \<and> truthy (reads st ! i)}
          \<and> sorted_wrt (finalizer_order (reads st)) ids
          \<and> greedy_assemble_indexed ascending ?in 4 4
              = Inr (concat (map (seq_of (reads st)) ids))"
    by blast
  then obtain ids where b: "set ids = {i. i < length (reads st) \<and> truthy (reads st ! i)}"
    and c: "sorted_wrt (finalizer_order (reads st)) ids"
    and d: "greedy_assemble_indexed ascending ?in 4 4
      = Inr (concat (map (seq_of (reads st)) ids))"
    by (elim exE conjE)
  from d have e: "''CCCTTTGGAA'' = concat (map (seq_of (reads st)) ids)"
    unfolding v by (simp only: sum.inject)
  have "\<exists>st ids. assemble ascending ?in 4 4 = Inr st
        \<and> set ids = {i. i < length (reads st) \<and> truthy (reads st ! i)}
        \<and> sorted_wrt (finalizer_order (reads st)) ids
        \<and> ''CCCTTTGGAA'' = concat (map (seq_of (reads st)) ids)"
    by (intro exI conjI) (rule a b c e)+
  with v show ?thesis using enumerates_ascending by (intro conjI)
qed

section \<open>The Prefix Index during assembly\<close>

text \<open>
  The states the engine goes through, in order: \<open>scan_all_states\<close> lists the state
  after each iteration of the \<^verbatim>\<open>for\<close> loop (after the merge and its two rebinds when
  the iteration merges), \<open>assemble_loop_states\<close> the state at the start of each pass
  followed by those of the pass, and \<open>assembly_states\<close> puts the state after the index
  build in front. They follow the recursion of \<open>scan_all\<close> and \<open>assemble_loop\<close> and stop
  where those stop.
\<close>

fun scan_all_states ::
  "enumeration \<Rightarrow> int \<Rightarrow> int \<Rightarrow> nat list \<Rightarrow> assembly \<Rightarrow> assembly list" where
  "scan_all_states enum k min_olap [] st = []"
| "scan_all_states enum k min_olap (i # is) st =
     (case scan_fragment enum k min_olap i st of
        Inl e \<Rightarrow> []
      | Inr st' \<Rightarrow> st' # scan_all_states enum k min_olap is st')"

function assemble_loop_states ::
  "enumeration \<Rightarrow> int \<Rightarrow> int \<Rightarrow> assembly \<Rightarrow> assembly list" where
  "assemble_loop_states enum k min_olap st =
     (if made_progress st then
        (let st1 = st\<lparr>made_progress := False, merge_log := 0 # merge_log st\<rparr>;
             positions = [0..<length (reads st)] in
         st1 # scan_all_states enum k min_olap positions st1 @
           (case scan_all enum k min_olap positions st1 of
              Inl e \<Rightarrow> []
            | Inr st' \<Rightarrow> assemble_loop_states enum k min_olap st'))
      else [])"
  by pat_completeness auto
termination
proof (relation "measure (\<lambda>(enum, k, min_olap, st).
         2 * active_count (reads st) + (if made_progress st then 1 else 0))", goal_cases)
  case 1
  show ?case by simp
next
  case (2 enum k min_olap st st1 positions st')
  from 2(2,3,4) have "scan_all enum k min_olap [0..<length (reads st1)] st1 = Inr st'"
    and "\<not> made_progress st1" and "active_count (reads st1) = active_count (reads st)"
    by simp_all
  with scan_all_active[of enum k min_olap st1 st'] 2(1) show ?case by auto
qed

declare assemble_loop_states.simps [simp del]

definition assembly_states ::
  "enumeration \<Rightarrow> string list \<Rightarrow> int \<Rightarrow> int \<Rightarrow> assembly list" where
  "assembly_states enum reads_in k min_olap =
     initial_assembly reads_in k
       # assemble_loop_states enum k min_olap (initial_assembly reads_in k)"

text \<open>
  The invariant of the Prefix Index in the words of the specification, for a threshold
  \<open>k\<close>: a fragment that is not \<^verbatim>\<open>None\<close> and has at least \<open>k\<close> characters is in the set
  keyed by its first \<open>k\<close> characters and in no other; a fragment with fewer than \<open>k\<close>
  characters is in no set; a retired fragment is in no set.
\<close>

definition prefix_index_inv :: "fragment list \<Rightarrow> prefix_index \<Rightarrow> nat \<Rightarrow> bool" where
  "prefix_index_inv rs ix k \<longleftrightarrow>
     (\<forall>i s. i < length rs \<and> rs ! i = Some s \<and> k \<le> length s
        \<longrightarrow> (\<forall>p. bound ix p i \<longleftrightarrow> p = take k s))
     \<and> (\<forall>i s p. i < length rs \<and> rs ! i = Some s \<and> length s < k \<longrightarrow> \<not> bound ix p i)
     \<and> (\<forall>i p. i < length rs \<and> rs ! i = None \<longrightarrow> \<not> bound ix p i)"

lemma index_ok_prefix_index_inv:
  assumes "index_ok rs ix k" "1 \<le> k"
  shows "prefix_index_inv rs ix (nat k)"
proof -
  have long: "bound ix p i \<longleftrightarrow> p = take (nat k) s"
    if "i < length rs" "rs ! i = Some s" "nat k \<le> length s" for i s p
  proof -
    from that(3) assms(2) have "s \<noteq> []" "k \<le> int (length s)" by auto
    with that(2) assms(2) have "key_of (rs ! i) k = Some (take (nat k) s)"
      by (simp add: key_of_def py_prefix_def)
    with assms(1) that(1) show ?thesis by (auto simp: index_ok_def)
  qed
  have short: "\<not> bound ix p i" if "i < length rs" "rs ! i = Some s" "length s < nat k" for i s p
  proof -
    from that(2,3) have "key_of (rs ! i) k = None" by (auto simp: key_of_def)
    with assms(1) show ?thesis by (simp add: index_ok_def)
  qed
  have retired: "\<not> bound ix p i" if "rs ! i = None" for i p
  proof -
    from that have "key_of (rs ! i) k = None" by (simp add: key_of_def)
    with assms(1) show ?thesis by (simp add: index_ok_def)
  qed
  from long short retired show ?thesis unfolding prefix_index_inv_def by blast
qed

lemma scan_all_states_index_ok:
  assumes "index_ok (reads st) (idx st) k" "\<forall>i\<in>set js. i < length (reads st)"
  shows "\<forall>s\<in>set (scan_all_states E k m js st).
     index_ok (reads s) (idx s) k \<and> length (reads s) = length (reads st)"
  using assms
proof (induction js arbitrary: st)
  case Nil
  then show ?case by simp
next
  case (Cons i js)
  show ?case
  proof (cases "scan_fragment E k m i st")
    case (Inl e)
    then show ?thesis by simp
  next
    case (Inr st')
    from Cons.prems(2) have i: "i < length (reads st)" by simp
    from scan_fragment_index_ok[OF i Inr Cons.prems(1)]
    have ok: "index_ok (reads st') (idx st') k" .
    from scan_fragment_length[OF i Inr] have len: "length (reads st') = length (reads st)" .
    with Cons.prems(2) have "\<forall>i\<in>set js. i < length (reads st')" by simp
    from Cons.IH[OF ok this] ok len Inr show ?thesis by simp
  qed
qed

lemma scan_all_last_state:
  "scan_all E k m js st = Inr st' \<Longrightarrow> st' = last (st # scan_all_states E k m js st)"
proof (induction js arbitrary: st)
  case Nil
  then show ?case by simp
next
  case (Cons i js)
  from Cons.prems obtain s1 where s1: "scan_fragment E k m i st = Inr s1"
    and rest: "scan_all E k m js s1 = Inr st'"
    by (auto split: sum.splits)
  from Cons.IH[OF rest] s1 show ?case by simp
qed

lemma assemble_loop_states_unfold:
  assumes "made_progress st"
    and "st1 = st\<lparr>made_progress := False, merge_log := 0 # merge_log st\<rparr>"
  shows "assemble_loop_states E k m st
     = st1 # scan_all_states E k m [0..<length (reads st)] st1 @
         (case scan_all E k m [0..<length (reads st)] st1 of
            Inl e \<Rightarrow> []
          | Inr st' \<Rightarrow> assemble_loop_states E k m st')"
  using assms by (subst assemble_loop_states.simps) (simp add: Let_def)

lemma assemble_loop_states_index_ok:
  assumes "index_ok (reads st) (idx st) k"
  shows "\<forall>s\<in>set (assemble_loop_states E k m st). index_ok (reads s) (idx s) k"
  using assms
proof (induction E k m st rule: assemble_loop_states.induct)
  case (1 E k m st)
  show ?case
  proof (cases "made_progress st")
    case False
    then show ?thesis by (simp add: assemble_loop_states.simps)
  next
    case True
    define st1 where "st1 = st\<lparr>made_progress := False, merge_log := 0 # merge_log st\<rparr>"
    define pos where "pos = [0..<length (reads st)]"
    from "1.prems" have ok1: "index_ok (reads st1) (idx st1) k" by (simp add: st1_def)
    have pos: "\<forall>i\<in>set pos. i < length (reads st1)" by (simp add: st1_def pos_def)
    from scan_all_states_index_ok[OF ok1 pos, of E m]
    have pass: "\<And>s. s \<in> set (scan_all_states E k m pos st1) \<Longrightarrow> index_ok (reads s) (idx s) k"
      by blast
    have rest: "index_ok (reads s) (idx s) k"
      if "s \<in> set (case scan_all E k m pos st1 of Inl e \<Rightarrow> []
        | Inr st' \<Rightarrow> assemble_loop_states E k m st')" for s
    proof (cases "scan_all E k m pos st1")
      case (Inl e)
      with that show ?thesis by simp
    next
      case (Inr st')
      have "last (st1 # scan_all_states E k m pos st1)
          \<in> set (st1 # scan_all_states E k m pos st1)"
        by (rule last_in_set) simp
      with scan_all_last_state[OF Inr]
      have "st' = st1 \<or> st' \<in> set (scan_all_states E k m pos st1)"
        by (simp only: set_simps insert_iff)
      with ok1 pass have "index_ok (reads st') (idx st') k" by blast
      from "1.IH"[OF True st1_def pos_def Inr this] Inr that show ?thesis by simp
    qed
    have eq: "assemble_loop_states E k m st
        = st1 # scan_all_states E k m pos st1 @
          (case scan_all E k m pos st1 of Inl e \<Rightarrow> []
           | Inr st' \<Rightarrow> assemble_loop_states E k m st')"
      unfolding pos_def by (rule assemble_loop_states_unfold[OF True st1_def])
    show ?thesis unfolding eq
    proof
      fix s
      assume "s \<in> set (st1 # scan_all_states E k m pos st1 @
          (case scan_all E k m pos st1 of Inl e \<Rightarrow> []
           | Inr st' \<Rightarrow> assemble_loop_states E k m st'))"
      then consider "s = st1" | "s \<in> set (scan_all_states E k m pos st1)"
        | "s \<in> set (case scan_all E k m pos st1 of Inl e \<Rightarrow> []
           | Inr st' \<Rightarrow> assemble_loop_states E k m st')"
        by (simp only: set_simps set_append insert_iff Un_iff) blast
      then show "index_ok (reads s) (idx s) k"
      proof cases
        case 1
        with ok1 show ?thesis by (simp only:)
      next
        case 2
        then show ?thesis by (rule pass)
      next
        case 3
        then show ?thesis by (rule rest)
      qed
    qed
  qed
qed

lemma assemble_loop_last_state:
  "assemble_loop E k m st = Inr st' \<Longrightarrow> st' = last (st # assemble_loop_states E k m st)"
proof (induction E k m st rule: assemble_loop.induct)
  case (1 E k m st)
  show ?case
  proof (cases "made_progress st")
    case False
    with "1.prems" show ?thesis
      by (simp add: assemble_loop.simps assemble_loop_states.simps)
  next
    case True
    define st1 where "st1 = st\<lparr>made_progress := False, merge_log := 0 # merge_log st\<rparr>"
    define pos where "pos = [0..<length (reads st)]"
    from True "1.prems" obtain s1 where s1: "scan_all E k m pos st1 = Inr s1"
      and rest: "assemble_loop E k m s1 = Inr st'"
      unfolding st1_def pos_def
      by (subst (asm) assemble_loop.simps) (auto split: sum.splits)
    from s1 have s1': "scan_all E k m [0..<length (reads st)]
        (st\<lparr>made_progress := False, merge_log := 0 # merge_log st\<rparr>) = Inr s1"
      by (simp only: st1_def pos_def)
    from "1.IH"[OF True s1' rest] have a: "st' = last (s1 # assemble_loop_states E k m s1)" .
    from scan_all_last_state[OF s1] have b: "last (st1 # scan_all_states E k m pos st1) = s1"
      by simp
    have "assemble_loop_states E k m st
        = st1 # scan_all_states E k m pos st1 @ assemble_loop_states E k m s1"
      using assemble_loop_states_unfold[OF True st1_def, of E k m] s1
      by (simp add: pos_def)
    then have "last (st # assemble_loop_states E k m st)
        = last ((st1 # scan_all_states E k m pos st1) @ assemble_loop_states E k m s1)"
      by simp
    also have "\<dots> = last (s1 # assemble_loop_states E k m s1)"
    proof (cases "assemble_loop_states E k m s1 = []")
      case True
      have "last ((st1 # scan_all_states E k m pos st1) @ assemble_loop_states E k m s1)
          = last (st1 # scan_all_states E k m pos st1)"
        by (simp only: True append_Nil2)
      with b True show ?thesis by simp
    next
      case False
      then have "last ((st1 # scan_all_states E k m pos st1) @ assemble_loop_states E k m s1)
          = last (assemble_loop_states E k m s1)"
        by (simp only: last_append if_False)
      with False show ?thesis by simp
    qed
    finally show ?thesis using a by simp
  qed
qed

lemma assemble_final_state:
  "assemble E reads_in k m = Inr st \<Longrightarrow> st = last (assembly_states E reads_in k m)"
  unfolding assemble_def assembly_states_def by (rule assemble_loop_last_state)

text \<open>
  Claim C2. For every threshold \<open>k \<ge> 1\<close>, every state of the assembly (the state
  after the index build, the state at the start of each pass and the state after each
  iteration of a pass, so in particular after each merge with its rebinds) satisfies the
  invariant of the Prefix Index: every fragment that is not \<^verbatim>\<open>None\<close> and has at least
  \<open>k\<close> characters is in exactly the set keyed by its first \<open>k\<close> characters, no shorter
  fragment is in any set, and no retired fragment is in any set.
\<close>

theorem prefix_index_invariant:
  assumes "1 \<le> k"
  shows "\<forall>st\<in>set (assembly_states E reads_in k m).
     prefix_index_inv (reads st) (idx st) (nat k)"
proof
  fix st
  assume "st \<in> set (assembly_states E reads_in k m)"
  then consider "st = initial_assembly reads_in k"
    | "st \<in> set (assemble_loop_states E k m (initial_assembly reads_in k))"
    by (auto simp: assembly_states_def)
  then have "index_ok (reads st) (idx st) k"
  proof cases
    case 1
    then show ?thesis by (simp add: initial_assembly_def Let_def build_prefix_index_ok)
  next
    case 2
    have "index_ok (reads (initial_assembly reads_in k)) (idx (initial_assembly reads_in k)) k"
      by (simp add: initial_assembly_def Let_def build_prefix_index_ok)
    from assemble_loop_states_index_ok[OF this, of E m] 2 show ?thesis by blast
  qed
  then show "prefix_index_inv (reads st) (idx st) (nat k)"
    using assms by (rule index_ok_prefix_index_inv)
qed

theorem prefix_index_invariant_witness:
  "(1::int) \<le> 4
   \<and> length (assembly_states ascending [''ACGTACG'', ''TACGTTT''] 4 4) = 7
   \<and> reads (assembly_states ascending [''ACGTACG'', ''TACGTTT''] 4 4 ! 2)
      = [Some ''ACGTACGTTT'', None]
   \<and> idx (assembly_states ascending [''ACGTACG'', ''TACGTTT''] 4 4 ! 2) ''ACGT''
      = Some {0}
   \<and> idx (assembly_states ascending [''ACGTACG'', ''TACGTTT''] 4 4 ! 2) ''TACG''
      = None
   \<and> prefix_index_inv
        (reads (assembly_states ascending [''ACGTACG'', ''TACGTTT''] 4 4 ! 2))
        (idx (assembly_states ascending [''ACGTACG'', ''TACGTTT''] 4 4 ! 2)) (nat 4)"
proof -
  define tr where "tr = assembly_states ascending [''ACGTACG'', ''TACGTTT''] 4 4"
  have h: "(1::int) \<le> 4" by simp
  have l: "length tr = 7" unfolding tr_def by code_simp
  have r: "reads (tr ! 2) = [Some ''ACGTACGTTT'', None]" unfolding tr_def by code_simp
  have a: "idx (tr ! 2) ''ACGT'' = Some {0}" unfolding tr_def by code_simp
  have b: "idx (tr ! 2) ''TACG'' = None" unfolding tr_def by code_simp
  from l have "tr ! 2 \<in> set tr" by simp
  with prefix_index_invariant[OF h, of ascending "[''ACGTACG'', ''TACGTTT'']" 4]
  have "prefix_index_inv (reads (tr ! 2)) (idx (tr ! 2)) (nat 4)"
    unfolding tr_def by (rule bspec)
  with h l r a b show ?thesis unfolding tr_def by (intro conjI)
qed

section \<open>The scenario of two identical fragments\<close>

lemmas engine_defs =
  assemble_def initial_assembly_def build_prefix_index_def setdefault_add_def
  scan_fragment_def choose_partner_def merge_into_def update_prefix_index_def
  remove_binding_def set_remove_def count_merge_def longest_overlap_def
  py_suffix_def py_prefix_def py_from_def Let_def

lemma enumerate_singleton:
  assumes "set xs = {a}" "distinct xs"
  shows "xs = [a]"
proof -
  from assms have "length xs = 1" using distinct_card[of xs] by simp
  then obtain x where "xs = [x]" by (cases xs) auto
  with assms(1) show ?thesis by simp
qed

lemma enumerate_pair:
  assumes "set xs = {a, b}" "distinct xs" "a \<noteq> b"
  shows "xs = [a, b] \<or> xs = [b, a]"
proof -
  from assms have "length xs = 2" using distinct_card[of xs] by simp
  then obtain x y where xs: "xs = [x, y]"
    by (cases xs; cases "tl xs") auto
  with assms(1) have "{x, y} = {a, b}" by simp
  with xs show ?thesis by (auto simp: doubleton_eq_iff)
qed

lemma identical_fragments_run:
  assumes "E ((initial_assembly [''AAAA'', ''AAAA''] 4)\<lparr>made_progress := False, merge_log := [0]\<rparr>)
        0 {Suc 0, 0} = [Suc 0, 0]
     \<or> E ((initial_assembly [''AAAA'', ''AAAA''] 4)\<lparr>made_progress := False, merge_log := [0]\<rparr>)
        0 {Suc 0, 0} = [0, Suc 0]"
    and "\<And>s i. E s i {0} = [0]"
  shows "map_sum id (\<lambda>st. (reads st, merge_log st)) (assemble E [''AAAA'', ''AAAA''] 4 4)
    = Inr ([Some ''AAAA'', None], [0, 1])"
  using assms(1)
proof
  assume "E ((initial_assembly [''AAAA'', ''AAAA''] 4)\<lparr>made_progress := False, merge_log := [0]\<rparr>)
        0 {Suc 0, 0} = [Suc 0, 0]"
  with assms(2) show ?thesis
    by (simp add: engine_defs assemble_loop.simps overlap_scan.simps insert_Diff_if)
next
  assume "E ((initial_assembly [''AAAA'', ''AAAA''] 4)\<lparr>made_progress := False, merge_log := [0]\<rparr>)
        0 {Suc 0, 0} = [0, Suc 0]"
  with assms(2) show ?thesis
    by (simp add: engine_defs assemble_loop.simps overlap_scan.simps insert_Diff_if)
qed

lemma identical_fragments_choice:
  assumes "E ((initial_assembly [''AAAA'', ''AAAA''] 4)\<lparr>made_progress := False, merge_log := [0]\<rparr>)
        0 {Suc 0, 0} = [Suc 0, 0]
     \<or> E ((initial_assembly [''AAAA'', ''AAAA''] 4)\<lparr>made_progress := False, merge_log := [0]\<rparr>)
        0 {Suc 0, 0} = [0, Suc 0]"
  shows "choose_partner E 4 4 0
     ((initial_assembly [''AAAA'', ''AAAA''] 4)\<lparr>made_progress := False, merge_log := [0]\<rparr>)
    = Inr (Some (''AAAA'', 1, 4))"
  using assms
proof
  assume "E ((initial_assembly [''AAAA'', ''AAAA''] 4)\<lparr>made_progress := False, merge_log := [0]\<rparr>)
        0 {Suc 0, 0} = [Suc 0, 0]"
  then show ?thesis by (simp add: engine_defs overlap_scan.simps)
next
  assume "E ((initial_assembly [''AAAA'', ''AAAA''] 4)\<lparr>made_progress := False, merge_log := [0]\<rparr>)
        0 {Suc 0, 0} = [0, Suc 0]"
  then show ?thesis by (simp add: engine_defs overlap_scan.simps)
qed

lemma choose_partner_not_self:
  "choose_partner E k m i st = Inr (Some (r, j, L)) \<Longrightarrow> j \<noteq> i"
  using choose_partner_Some[of E k m i st r j L] by (simp add: partner_ok_def)

text \<open>
  Claim C9. On the fragments \<open>AAAA\<close>, \<open>AAAA\<close> with \<open>k = min_olap = 4\<close>, whatever the
  order in which the candidate set is iterated: the scan of fragment 0 chooses fragment 1
  with overlap 4 (a fragment is never its own partner, here or in any other state); the
  run makes one merge, in its first pass, and none in its second and last pass; it ends
  with fragment 0 holding \<open>AAAA\<close> and fragment 1 retired, so one fragment is active; and
  the output is \<open>AAAA\<close>.
\<close>

theorem identical_fragments_scenario:
  assumes "enumerates E"
  shows "choose_partner E 4 4 0
        ((initial_assembly [''AAAA'', ''AAAA''] 4)\<lparr>made_progress := False, merge_log := [0]\<rparr>)
       = Inr (Some (''AAAA'', 1, 4))
     \<and> (\<forall>k m i s r j L. choose_partner E k m i s = Inr (Some (r, j, L)) \<longrightarrow> j \<noteq> i)
     \<and> (\<exists>st. assemble E [''AAAA'', ''AAAA''] 4 4 = Inr st
          \<and> reads st = [Some ''AAAA'', None] \<and> merge_log st = [0, 1]
          \<and> active_count (reads st) = 1)
     \<and> greedy_assemble_indexed E [''AAAA'', ''AAAA''] 4 4 = Inr ''AAAA''"
proof -
  let ?st1 = "(initial_assembly [''AAAA'', ''AAAA''] 4)\<lparr>made_progress := False, merge_log := [0]\<rparr>"
  from assms have "set (E ?st1 0 {Suc 0, 0}) = {Suc 0, 0}" "distinct (E ?st1 0 {Suc 0, 0})"
    by (simp_all add: enumerates_def)
  then have two: "E ?st1 0 {Suc 0, 0} = [Suc 0, 0] \<or> E ?st1 0 {Suc 0, 0} = [0, Suc 0]"
    by (simp add: enumerate_pair)
  have one: "E s i {0} = [0]" for s i
  proof -
    from assms have "set (E s i {0}) = {0}" "distinct (E s i {0})"
      by (simp_all add: enumerates_def)
    then show ?thesis by (rule enumerate_singleton)
  qed
  from identical_fragments_run[of E, OF two one] obtain st
    where st: "assemble E [''AAAA'', ''AAAA''] 4 4 = Inr st"
      and fin: "reads st = [Some ''AAAA'', None]" "merge_log st = [0, 1]"
    by (cases "assemble E [''AAAA'', ''AAAA''] 4 4") auto
  from fin(1) have act: "active_count (reads st) = 1"
    by (simp add: active_count_def truthy_def)
  from st fin(1) have out: "greedy_assemble_indexed E [''AAAA'', ''AAAA''] 4 4 = Inr ''AAAA''"
    by (simp add: greedy_assemble_indexed_def finalize_def contigs_of_def truthy_def
        sort_by_length_desc_def)
  have self: "\<forall>k m i s r j L. choose_partner E k m i s = Inr (Some (r, j, L)) \<longrightarrow> j \<noteq> i"
    by (blast dest: choose_partner_not_self)
  have "\<exists>st. assemble E [''AAAA'', ''AAAA''] 4 4 = Inr st
          \<and> reads st = [Some ''AAAA'', None] \<and> merge_log st = [0, 1]
          \<and> active_count (reads st) = 1"
    by (intro exI conjI) (rule st fin act)+
  with identical_fragments_choice[of E, OF two] self out show ?thesis by (intro conjI)
qed

theorem identical_fragments_scenario_witness:
  "enumerates ascending
   \<and> greedy_assemble_indexed ascending [''AAAA'', ''AAAA''] 4 4 = Inr ''AAAA''
   \<and> (\<exists>st. assemble ascending [''AAAA'', ''AAAA''] 4 4 = Inr st
        \<and> reads st = [Some ''AAAA'', None] \<and> merge_log st = [0, 1])"
proof -
  note t = identical_fragments_scenario[OF enumerates_ascending]
  from t have a: "greedy_assemble_indexed ascending [''AAAA'', ''AAAA''] 4 4
      = Inr ''AAAA''"
    by (elim conjE)
  from t obtain st where "assemble ascending [''AAAA'', ''AAAA''] 4 4 = Inr st"
    "reads st = [Some ''AAAA'', None]" "merge_log st = [0, 1]"
    by (elim conjE exE)
  then have "\<exists>st. assemble ascending [''AAAA'', ''AAAA''] 4 4 = Inr st
        \<and> reads st = [Some ''AAAA'', None] \<and> merge_log st = [0, 1]"
    by (intro exI conjI)
  with a enumerates_ascending show ?thesis by (intro conjI)
qed

section \<open>The caller's list\<close>

text \<open>
  Python lists are mutable objects, and \<^verbatim>\<open>reads_in\<close> and \<^verbatim>\<open>reads\<close> are references
  to them. To speak about the caller's list after the call, list objects live in a store
  that maps an address to the list object there; \<open>store_set h a i v\<close> is the
  assignment \<^verbatim>\<open>obj[i] = v\<close> to the list object at address \<open>a\<close>.

  \<open>assembly_in\<close> holds the store and the local variables of the function, with
  \<open>reads_ref\<close> the reference that the variable \<^verbatim>\<open>reads\<close> holds. The functions below
  are the engine again, on the store: what it reads of the list it reads through
  \<open>reads_ref\<close> (\<open>view\<close> gives the state of the engine above as the store shows it),
  and the two assignments of the merge, \<^verbatim>\<open>reads[i] = merged\<close> and
  \<^verbatim>\<open>reads[best_j] = None\<close>, are the two store writes of \<open>merge_into_in\<close>. The index
  is a dictionary that the function creates, and strings are immutable.
\<close>

type_synonym store = "nat \<Rightarrow> fragment list"

definition store_set :: "store \<Rightarrow> nat \<Rightarrow> nat \<Rightarrow> fragment \<Rightarrow> store" where
  "store_set h a i v = h(a := (h a)[i := v])"

record assembly_in =
  heap :: store
  reads_ref :: nat
  idx_in :: prefix_index
  made_progress_in :: bool
  merge_log_in :: "nat list"

definition view :: "assembly_in \<Rightarrow> assembly" where
  "view s = \<lparr>reads = heap s (reads_ref s), idx = idx_in s,
              made_progress = made_progress_in s, merge_log = merge_log_in s\<rparr>"

definition merge_into_in ::
  "int \<Rightarrow> nat \<Rightarrow> string \<Rightarrow> nat \<Rightarrow> int \<Rightarrow> assembly_in \<Rightarrow> py_error + assembly_in" where
  "merge_into_in k i r best_j best_ol s =
     (if length (heap s (reads_ref s)) \<le> i \<or> length (heap s (reads_ref s)) \<le> best_j
      then Inl IndexError
      else
        (let old_i = heap s (reads_ref s) ! i; old_j = heap s (reads_ref s) ! best_j in
         case old_j of
           None \<Rightarrow> Inl TypeError
         | Some rj \<Rightarrow>
             (let merged = r @ py_from rj best_ol;
                  h1 = store_set (heap s) (reads_ref s) i (Some merged);
                  h2 = store_set h1 (reads_ref s) best_j None in
              case update_prefix_index (idx_in s) i old_i (Some merged) k of
                Inl e \<Rightarrow> Inl e
              | Inr idx1 \<Rightarrow>
                  (case update_prefix_index idx1 best_j old_j None k of
                     Inl e \<Rightarrow> Inl e
                   | Inr idx2 \<Rightarrow>
                       Inr (s\<lparr>heap := h2, idx_in := idx2, made_progress_in := True,
                               merge_log_in := count_merge (merge_log_in s)\<rparr>)))))"

definition scan_fragment_in ::
  "enumeration \<Rightarrow> int \<Rightarrow> int \<Rightarrow> nat \<Rightarrow> assembly_in \<Rightarrow> py_error + assembly_in" where
  "scan_fragment_in enum k min_olap i s =
     (case choose_partner enum k min_olap i (view s) of
        Inl e \<Rightarrow> Inl e
      | Inr None \<Rightarrow> Inr s
      | Inr (Some (r, best_j, best_ol)) \<Rightarrow> merge_into_in k i r best_j best_ol s)"

fun scan_all_in ::
  "enumeration \<Rightarrow> int \<Rightarrow> int \<Rightarrow> nat list \<Rightarrow> assembly_in \<Rightarrow> py_error + assembly_in" where
  "scan_all_in enum k min_olap [] s = Inr s"
| "scan_all_in enum k min_olap (i # is) s =
     (case scan_fragment_in enum k min_olap i s of
        Inl e \<Rightarrow> Inl e
      | Inr s' \<Rightarrow> scan_all_in enum k min_olap is s')"

subsection \<open>The engine on the store and the engine on the list agree\<close>

lemma view_simps [simp]:
  "reads (view s) = heap s (reads_ref s)" "idx (view s) = idx_in s"
  "made_progress (view s) = made_progress_in s" "merge_log (view s) = merge_log_in s"
  by (simp_all add: view_def)

lemma merge_into_in_view:
  "map_sum id view (merge_into_in k i r j ol s) = merge_into k i r j ol (view s)"
  by (simp add: merge_into_in_def merge_into_def store_set_def Let_def view_def
      split: option.splits sum.splits)

lemma merge_into_in_frame:
  assumes "merge_into_in k i r j ol s = Inr s'"
  shows "reads_ref s' = reads_ref s \<and> (\<forall>a. a \<noteq> reads_ref s \<longrightarrow> heap s' a = heap s a)"
  using assms
  by (auto simp: merge_into_in_def store_set_def Let_def split: if_splits option.splits sum.splits)

lemma scan_fragment_in_view:
  "map_sum id view (scan_fragment_in E k m i s) = scan_fragment E k m i (view s)"
  by (simp add: scan_fragment_in_def scan_fragment_def merge_into_in_view
      split: sum.splits option.splits prod.splits)

lemma scan_fragment_in_frame:
  assumes "scan_fragment_in E k m i s = Inr s'"
  shows "reads_ref s' = reads_ref s \<and> (\<forall>a. a \<noteq> reads_ref s \<longrightarrow> heap s' a = heap s a)"
proof (cases "choose_partner E k m i (view s)")
  case (Inl e)
  with assms show ?thesis by (simp add: scan_fragment_in_def)
next
  case (Inr c)
  show ?thesis
  proof (cases c)
    case None
    with Inr assms show ?thesis by (simp add: scan_fragment_in_def)
  next
    case (Some t)
    obtain r j ol where "t = (r, j, ol)" by (cases t)
    with Inr Some assms have "merge_into_in k i r j ol s = Inr s'"
      by (simp add: scan_fragment_in_def)
    then show ?thesis by (rule merge_into_in_frame)
  qed
qed

lemma scan_all_in_view:
  "map_sum id view (scan_all_in E k m js s) = scan_all E k m js (view s)"
proof (induction js arbitrary: s)
  case Nil
  then show ?case by simp
next
  case (Cons i js)
  show ?case
  proof (cases "scan_fragment_in E k m i s")
    case (Inl e)
    with scan_fragment_in_view[of E k m i s]
    have "scan_fragment E k m i (view s) = Inl e" by simp
    with Inl show ?thesis by simp
  next
    case (Inr s1)
    with scan_fragment_in_view[of E k m i s]
    have "scan_fragment E k m i (view s) = Inr (view s1)" by simp
    with Inr Cons.IH[of s1] show ?thesis by simp
  qed
qed

lemma scan_all_in_frame:
  assumes "scan_all_in E k m js s = Inr s'"
  shows "reads_ref s' = reads_ref s \<and> (\<forall>a. a \<noteq> reads_ref s \<longrightarrow> heap s' a = heap s a)"
  using assms
proof (induction js arbitrary: s)
  case Nil
  then show ?case by simp
next
  case (Cons i js)
  from Cons.prems obtain s1 where s1: "scan_fragment_in E k m i s = Inr s1"
    and rest: "scan_all_in E k m js s1 = Inr s'"
    by (auto split: sum.splits)
  from scan_fragment_in_frame[OF s1] Cons.IH[OF rest] show ?case by simp
qed


lemma view_pass_start:
  "view (s\<lparr>made_progress_in := False, merge_log_in := 0 # merge_log_in s\<rparr>)
     = (view s)\<lparr>made_progress := False, merge_log := 0 # merge_log (view s)\<rparr>"
  by (simp add: view_def)

function assemble_loop_in ::
  "enumeration \<Rightarrow> int \<Rightarrow> int \<Rightarrow> assembly_in \<Rightarrow> py_error + assembly_in" where
  "assemble_loop_in enum k min_olap s =
     (if made_progress_in s then
        (case scan_all_in enum k min_olap [0..<length (heap s (reads_ref s))]
                (s\<lparr>made_progress_in := False, merge_log_in := 0 # merge_log_in s\<rparr>) of
           Inl e \<Rightarrow> Inl e
         | Inr s' \<Rightarrow> assemble_loop_in enum k min_olap s')
      else Inr s)"
  by pat_completeness auto
termination
proof (relation "measure (\<lambda>(enum, k, min_olap, s).
         2 * active_count (heap s (reads_ref s)) + (if made_progress_in s then 1 else 0))",
       goal_cases)
  case 1
  show ?case by simp
next
  case (2 enum k min_olap s s')
  define s1 where "s1 = s\<lparr>made_progress_in := False, merge_log_in := 0 # merge_log_in s\<rparr>"
  from 2(2) have run: "scan_all_in enum k min_olap [0..<length (reads (view s1))] s1 = Inr s'"
    by (simp add: s1_def)
  with scan_all_in_view[of enum k min_olap "[0..<length (reads (view s1))]" s1]
  have "scan_all enum k min_olap [0..<length (reads (view s1))] (view s1) = Inr (view s')"
    by simp
  moreover have "\<not> made_progress (view s1)" by (simp add: s1_def)
  ultimately have "active_count (reads (view s')) \<le> active_count (reads (view s1))
    \<and> (made_progress (view s') \<longrightarrow> active_count (reads (view s')) < active_count (reads (view s1)))"
    by (rule scan_all_active)
  moreover have "reads (view s1) = heap s (reads_ref s)" by (simp add: s1_def)
  ultimately show ?case using 2(1) by auto
qed

declare assemble_loop_in.simps [simp del]

lemma assemble_loop_in_view:
  "map_sum id view (assemble_loop_in E k m s) = assemble_loop E k m (view s)"
proof (induction E k m s rule: assemble_loop_in.induct)
  case (1 E k m s)
  show ?case
  proof (cases "made_progress_in s")
    case False
    then show ?thesis by (simp add: assemble_loop_in.simps assemble_loop.simps)
  next
    case True
    define s1 where "s1 = s\<lparr>made_progress_in := False, merge_log_in := 0 # merge_log_in s\<rparr>"
    define pos where "pos = [0..<length (heap s (reads_ref s))]"
    have v1: "view s1 = (view s)\<lparr>made_progress := False, merge_log := 0 # merge_log (view s)\<rparr>"
      unfolding s1_def by (rule view_pass_start)
    have lhs: "assemble_loop_in E k m s =
        (case scan_all_in E k m pos s1 of Inl e \<Rightarrow> Inl e | Inr s' \<Rightarrow> assemble_loop_in E k m s')"
      using True by (subst assemble_loop_in.simps) (simp add: s1_def pos_def)
    have rhs: "assemble_loop E k m (view s) =
        (case scan_all E k m pos (view s1) of Inl e \<Rightarrow> Inl e | Inr st' \<Rightarrow> assemble_loop E k m st')"
      using True by (subst assemble_loop.simps) (simp add: v1 pos_def)
    show ?thesis
    proof (cases "scan_all_in E k m pos s1")
      case (Inl e)
      with scan_all_in_view[of E k m pos s1] have "scan_all E k m pos (view s1) = Inl e" by simp
      with Inl lhs rhs show ?thesis by simp
    next
      case (Inr s')
      with scan_all_in_view[of E k m pos s1]
      have p: "scan_all E k m pos (view s1) = Inr (view s')" by simp
      from Inr have "scan_all_in E k m [0..<length (heap s (reads_ref s))]
          (s\<lparr>made_progress_in := False, merge_log_in := 0 # merge_log_in s\<rparr>) = Inr s'"
        by (simp only: s1_def pos_def)
      from "1.IH"[OF True this]
      have ih: "map_sum id view (assemble_loop_in E k m s') = assemble_loop E k m (view s')" .
      from Inr lhs have l: "assemble_loop_in E k m s = assemble_loop_in E k m s'" by simp
      from p rhs have r: "assemble_loop E k m (view s) = assemble_loop E k m (view s')" by simp
      show ?thesis unfolding l r by (rule ih)
    qed
  qed
qed

lemma assemble_loop_in_frame:
  assumes "assemble_loop_in E k m s = Inr s'"
  shows "reads_ref s' = reads_ref s \<and> (\<forall>a. a \<noteq> reads_ref s \<longrightarrow> heap s' a = heap s a)"
  using assms
proof (induction E k m s rule: assemble_loop_in.induct)
  case (1 E k m s)
  show ?case
  proof (cases "made_progress_in s")
    case False
    with "1.prems" show ?thesis by (simp add: assemble_loop_in.simps)
  next
    case True
    define s1 where "s1 = s\<lparr>made_progress_in := False, merge_log_in := 0 # merge_log_in s\<rparr>"
    from True "1.prems" obtain s2
      where s2: "scan_all_in E k m [0..<length (heap s (reads_ref s))] s1 = Inr s2"
        and rest: "assemble_loop_in E k m s2 = Inr s'"
      unfolding s1_def by (subst (asm) assemble_loop_in.simps) (auto split: sum.splits)
    from s2 have s2': "scan_all_in E k m [0..<length (heap s (reads_ref s))]
        (s\<lparr>made_progress_in := False, merge_log_in := 0 # merge_log_in s\<rparr>) = Inr s2"
      by (simp only: s1_def)
    from scan_all_in_frame[OF s2]
    have a: "reads_ref s2 = reads_ref s" "\<And>a. a \<noteq> reads_ref s \<Longrightarrow> heap s2 a = heap s a"
      by (simp_all add: s1_def)
    from "1.IH"[OF True s2' rest]
    have b: "reads_ref s' = reads_ref s2" "\<And>a. a \<noteq> reads_ref s2 \<Longrightarrow> heap s' a = heap s2 a"
      by simp_all
    from a b show ?thesis by simp
  qed
qed


text \<open>
  The function itself. \<open>free\<close> is the first unused address of the store; the caller's
  objects lie below it. The first statement, \<^verbatim>\<open>reads = list(reads_in)\<close>, allocates a
  new list object there with the elements of the caller's list, and the variable
  \<^verbatim>\<open>reads\<close> refers to it from then on. The result is the store the call leaves and
  the output string.
\<close>

definition greedy_assemble_indexed_in ::
  "enumeration \<Rightarrow> store \<Rightarrow> nat \<Rightarrow> nat \<Rightarrow> int \<Rightarrow> int \<Rightarrow> py_error + (store \<times> string)" where
  "greedy_assemble_indexed_in enum h free reads_in k min_olap =
     (let h1 = h(free := h reads_in);
          s0 = \<lparr>heap = h1, reads_ref = free, idx_in = build_prefix_index (h1 free) k,
                 made_progress_in = True, merge_log_in = []\<rparr> in
      case assemble_loop_in enum k min_olap s0 of
        Inl e \<Rightarrow> Inl e
      | Inr s \<Rightarrow> Inr (heap s, finalize (heap s (reads_ref s))))"

text \<open>
  The writes of the merge do reach the store: run on the caller's own list object, as
  \<^verbatim>\<open>reads = reads_in\<close> without the copy would do, the loop changes that object.
\<close>

definition example_store :: store where
  "example_store = (\<lambda>a. [])(0 := [Some ''ACGTACG'', Some ''TACGTTT''])"

lemma aliased_run_changes_the_list:
  "map_sum id (\<lambda>s. heap s 0)
     (assemble_loop_in ascending 4 4
        \<lparr>heap = example_store, reads_ref = 0,
          idx_in = build_prefix_index (example_store 0) 4,
          made_progress_in = True, merge_log_in = []\<rparr>)
   = Inr [Some ''ACGTACGTTT'', None]"
  by code_simp

text \<open>
  Claim C10. Let the caller's list of strings \<open>xs\<close> be the object at an address
  \<open>reads_in\<close> in use. For every \<open>k\<close> and \<open>min_olap\<close> the call returns, with the
  output of \<open>greedy_assemble_indexed\<close> on \<open>xs\<close>, and in the store it leaves the
  object at \<open>reads_in\<close> holds the same elements in the same order as before; so does
  every object other than the copy that the function allocated.
\<close>

theorem input_list_unchanged:
  assumes "enumerates E" "reads_in < free" "h reads_in = map Some xs"
  shows "\<exists>h' out. greedy_assemble_indexed_in E h free reads_in k m = Inr (h', out)
     \<and> greedy_assemble_indexed E xs k m = Inr out
     \<and> h' reads_in = map Some xs
     \<and> (\<forall>a. a \<noteq> free \<longrightarrow> h' a = h a)"
proof -
  define s0 where "s0 = \<lparr>heap = h(free := h reads_in), reads_ref = free,
     idx_in = build_prefix_index ((h(free := h reads_in)) free) k,
     made_progress_in = True, merge_log_in = []\<rparr>"
  have v0: "view s0 = initial_assembly xs k"
    by (simp add: s0_def view_def initial_assembly_def Let_def assms(3))
  from assemble_engine_inv[OF assms(1), of xs k m]
  obtain st where st: "assemble_loop E k m (initial_assembly xs k) = Inr st"
    by (auto simp: assemble_def)
  with assemble_loop_in_view[of E k m s0] v0
  have "map_sum id view (assemble_loop_in E k m s0) = Inr st" by simp
  then obtain s where s: "assemble_loop_in E k m s0 = Inr s" and vs: "view s = st"
    by (cases "assemble_loop_in E k m s0") auto
  from assemble_loop_in_frame[OF s]
  have ref: "reads_ref s = free" and frame: "\<And>a. a \<noteq> free \<Longrightarrow> heap s a = h a"
    by (simp_all add: s0_def)
  from vs have rd: "heap s (reads_ref s) = reads st" by (auto simp: view_def)
  from s have run: "greedy_assemble_indexed_in E h free reads_in k m
      = Inr (heap s, finalize (heap s (reads_ref s)))"
    by (simp add: greedy_assemble_indexed_in_def Let_def s0_def)
  from st have out: "greedy_assemble_indexed E xs k m = Inr (finalize (reads st))"
    by (simp add: greedy_assemble_indexed_def assemble_def)
  from assms(2) have "reads_in \<noteq> free" by simp
  with frame assms(3) have same: "heap s reads_in = map Some xs" by simp
  from run out same frame show ?thesis unfolding rd by blast
qed

theorem input_list_unchanged_witness:
  "enumerates ascending
   \<and> example_store 0 = map Some [''ACGTACG'', ''TACGTTT'']
   \<and> (\<exists>h' out. greedy_assemble_indexed_in ascending example_store 1 0 4 4 = Inr (h', out)
        \<and> out = ''ACGTACGTTT''
        \<and> h' 0 = map Some [''ACGTACG'', ''TACGTTT'']
        \<and> h' 1 = [Some ''ACGTACGTTT'', None])"
proof -
  have a: "(0::nat) < 1" by simp
  have b: "example_store 0 = map Some [''ACGTACG'', ''TACGTTT'']"
    by (simp add: example_store_def)
  have v: "map_sum id (\<lambda>(h', out). (h' 1, out))
      (greedy_assemble_indexed_in ascending example_store 1 0 4 4)
    = Inr ([Some ''ACGTACGTTT'', None], ''ACGTACGTTT'')"
    by code_simp
  from input_list_unchanged[of ascending 0 1 example_store "[''ACGTACG'', ''TACGTTT'']" 4 4,
      OF enumerates_ascending a b]
  obtain h' out where c: "greedy_assemble_indexed_in ascending example_store 1 0 4 4 = Inr (h', out)"
    and d: "h' 0 = map Some [''ACGTACG'', ''TACGTTT'']"
    by blast
  from v have e: "out = ''ACGTACGTTT''" and f: "h' 1 = [Some ''ACGTACGTTT'', None]"
    unfolding c by simp_all
  have "\<exists>h' out. greedy_assemble_indexed_in ascending example_store 1 0 4 4 = Inr (h', out)
        \<and> out = ''ACGTACGTTT''
        \<and> h' 0 = map Some [''ACGTACG'', ''TACGTTT'']
        \<and> h' 1 = [Some ''ACGTACGTTT'', None]"
    by (intro exI conjI) (rule c e d f)+
  with b enumerates_ascending show ?thesis by (intro conjI)
qed

end
